theory Spec2Isabelle
  imports Complex_Main
begin

section \<open>Errors and arrays\<close>

text \<open>
  The program is a Python script over NumPy arrays. Every \<^verbatim>\<open>raise\<close> of the
  interpreter or of a library is a value of \<open>exn\<close>; a computation that can raise
  returns \<open>exn + 'a\<close>, with \<open>Inl\<close> for the exception. Floating-point numbers are
  idealised as real numbers.
\<close>

datatype exn =
  AssertionError | ValueError | IndexError | NameError
  | ZeroDivisionError | AttributeError | TypeError | GeodError

text \<open>Sequencing: the first exception ends the computation.\<close>

definition bind_exn :: "exn + 'a \<Rightarrow> ('a \<Rightarrow> exn + 'b) \<Rightarrow> exn + 'b" where
  "bind_exn m f = (case m of Inl e \<Rightarrow> Inl e | Inr x \<Rightarrow> f x)"

text \<open>
  A two-dimensional array keeps its number of columns even when it has no row, as
  \<^verbatim>\<open>np.empty((0, 8))\<close> does.
\<close>

record ndarray =
  ncols :: nat
  rows :: "real list list"

definition nrows :: "ndarray \<Rightarrow> nat" where
  "nrows a = length (rows a)"

text \<open>\<^verbatim>\<open>a[:, j]\<close>: IndexError when the array has no column \<open>j\<close>.\<close>

definition col :: "nat \<Rightarrow> ndarray \<Rightarrow> exn + real list" where
  "col j a = (if j < ncols a then Inr (map (\<lambda>r. r ! j) (rows a)) else Inl IndexError)"

text \<open>\<^verbatim>\<open>xs[st:en]\<close> for non-negative bounds.\<close>

definition py_slice :: "nat \<Rightarrow> nat \<Rightarrow> 'a list \<Rightarrow> 'a list" where
  "py_slice st en xs = drop st (take en xs)"

text \<open>
  \<^verbatim>\<open>np.split(xs, idx)\<close> cuts at the division points \<^verbatim>\<open>[0] + idx + [len(xs)]\<close>:
  one slice for every pair of neighbouring points.
\<close>

definition np_split :: "'a list \<Rightarrow> nat list \<Rightarrow> 'a list list" where
  "np_split xs idx = map (\<lambda>(st, en). py_slice st en xs) (zip (0 # idx) (idx @ [length xs]))"

text \<open>\<^verbatim>\<open>np.arange(0, n, step)\<close> for a positive step.\<close>

definition np_arange0 :: "nat \<Rightarrow> nat \<Rightarrow> nat list" where
  "np_arange0 n step = map (\<lambda>k. k * step) [0..<(n + step - 1) div step]"

section \<open>Outlier selection (trackOutlier)\<close>

text \<open>A matrix is the list of its rows; the entries are 0 and 1.\<close>

definition is_symmetric :: "int list list \<Rightarrow> bool" where
  "is_symmetric A =
     list_all (\<lambda>i. list_all (\<lambda>j. A ! i ! j = A ! j ! i) [0..<length A]) [0..<length A]"

definition is_binary :: "int list list \<Rightarrow> bool" where
  "is_binary A = list_all (list_all (\<lambda>x. x = 0 \<or> x = 1)) A"

text \<open>\<^verbatim>\<open>np.max\<close> raises ValueError on an array without elements.\<close>

definition np_max :: "'a::linorder list \<Rightarrow> exn + 'a" where
  "np_max b = (case b of [] \<Rightarrow> Inl ValueError | x # xs \<Rightarrow> Inr (fold max xs x))"

text \<open>\<^verbatim>\<open>np.argmax\<close>: the first position that holds the maximum.\<close>

definition np_argmax :: "int list \<Rightarrow> nat" where
  "np_argmax b = length (takeWhile (\<lambda>x. x \<noteq> fold max (tl b) (hd b)) b)"

text \<open>
  The \<^verbatim>\<open>while\<close> loop of \<^verbatim>\<open>trackOutlier\<close> on the vectors \<open>b\<close> and \<open>o\<close> (here \<open>ov\<close>),
  both created with \<open>n\<close> entries. The inner \<^verbatim>\<open>for\<close> runs after \<open>o[r]\<close> and \<open>b[r]\<close>
  are set. Reading an entry that a vector does not have is an IndexError.
\<close>

function koyak_loop :: "int list list \<Rightarrow> nat \<Rightarrow> int list \<Rightarrow> bool list \<Rightarrow> exn + bool list" where
  "koyak_loop A n b ov =
     (case np_max b of
        Inl e \<Rightarrow> Inl e
      | Inr m \<Rightarrow>
         if length b \<noteq> n \<or> length ov \<noteq> n then Inl IndexError
         else if 0 < m then
           (let r = np_argmax b;
                o1 = ov[r := True];
                b1 = b[r := 0];
                b2 = map (\<lambda>j. if \<not> o1 ! j then b1 ! j - A ! r ! j else b1 ! j) [0..<n]
            in koyak_loop A n b2 o1)
         else Inr ov)"
  by pat_completeness auto
termination
proof (relation "measure (\<lambda>(A, n, b, ov). card {j. j < n \<and> (\<not> ov ! j \<or> 0 < b ! j)})", goal_cases)
  case 1
  show ?case by simp
next
  case (2 A n b ov m r o1 b1 b2)
  obtain x xs where b: "b = x # xs" using 2(1) by (cases b) (auto simp: np_max_def)
  have m: "m = Max (set b)"
    using 2(1) Max.set_eq_fold[of x xs] by (simp add: b np_max_def)
  have fm: "fold max (tl b) (hd b) = Max (set b)"
    using Max.set_eq_fold[of x xs] by (simp add: b)
  let ?P = "\<lambda>y. y \<noteq> Max (set b)"
  have "Max (set b) \<in> set b" by (intro Max_in) (auto simp: b)
  then have "takeWhile ?P b \<noteq> b" by (auto simp: takeWhile_eq_all_conv)
  then have lt: "length (takeWhile ?P b) < length b"
    using length_takeWhile_le[of ?P b]
    by (metis le_neq_implies_less takeWhile_eq_take take_all_iff order_refl)
  have len: "length b = n" "length ov = n" using 2(2) by auto
  have r: "r < n" "b ! r = m"
    using lt nth_length_takeWhile[OF lt] len by (simp_all add: 2(4) np_argmax_def fm m)
  let ?S = "{j. j < n \<and> (\<not> ov ! j \<or> 0 < b ! j)}"
  let ?S' = "{j. j < n \<and> (\<not> o1 ! j \<or> 0 < b2 ! j)}"
  have sub: "?S' \<subseteq> ?S - {r}"
    using r len 2(3) by (auto simp: 2(5,6,7) nth_list_update)
  have rin: "r \<in> ?S" using r 2(3) by auto
  have "card ?S' \<le> card (?S - {r})" using sub by (intro card_mono) auto
  also have "\<dots> < card ?S" using rin by (intro card_Diff1_less) auto
  finally show ?case by simp
qed

declare koyak_loop.simps [simp del]

text \<open>
  \<^verbatim>\<open>trackOutlier(A)\<close>: the two assertions, then \<open>b\<close> is the vector of row sums and
  \<open>o\<close> starts as \<open>n\<close> zeros.
\<close>

definition trackOutlier :: "int list list \<Rightarrow> exn + bool list" where
  "trackOutlier A =
     (if \<not> is_symmetric A then Inl AssertionError
      else if \<not> is_binary A then Inl AssertionError
      else let n = length A; b = map sum_list A; ov = replicate n False
           in koyak_loop A n b ov)"

section \<open>Re-splitting into blocks\<close>

definition DURATION_MAX :: nat where "DURATION_MAX = 12"
definition one_hour :: nat where "one_hour = 12"

text \<open>
  The body of the re-splitting loop for one sampled track \<open>v\<close>: the sub-tracks that
  are stored in \<^verbatim>\<open>Data\<close>, in order.
\<close>

definition resplit :: "ndarray \<Rightarrow> ndarray list" where
  "resplit v =
     (let idx = tl (np_arange0 (nrows v) (one_hour * DURATION_MAX));
          tmp = np_split (rows v) idx
      in map (\<lambda>s. v\<lparr>rows := s\<rparr>)
           (filter (\<lambda>subtrack. one_hour * DURATION_MAX \<le> length subtrack) tmp))"

section \<open>Constants and parameters\<close>

text \<open>The column constants of the module: \<^verbatim>\<open>LAT,LON,SOG,COG,HEAD,NAV,TIMESTAMP,MMSI = range(8)\<close>.\<close>

definition LAT :: nat where "LAT = 0"
definition LON :: nat where "LON = 1"
definition SOG :: nat where "SOG = 2"
definition COG :: nat where "COG = 3"
definition HEAD :: nat where "HEAD = 4"
definition NAV :: nat where "NAV = 5"
definition TIMESTAMP :: nat where "TIMESTAMP = 6"
definition MMSI :: nat where "MMSI = 7"

definition SPEED_MAX :: real where "SPEED_MAX = 30"
definition INTERVAL_MAX :: real where "INTERVAL_MAX = 2 * 3600"

text \<open>
  \<^verbatim>\<open>interpolate_\<close> reads the global names \<^verbatim>\<open>HEADING\<close>, \<^verbatim>\<open>ROT\<close> and \<^verbatim>\<open>NAV_STT\<close>, which
  the module does not bind. They are parameters: \<open>Some c\<close> is a binding to column \<open>c\<close>,
  \<open>None\<close> is the module as it stands, where reading the name raises NameError.
\<close>

record names =
  HEADING :: "nat option"
  ROT :: "nat option"
  NAV_STT :: "nat option"

definition lookup :: "nat option \<Rightarrow> exn + nat" where
  "lookup nm = (case nm of None \<Rightarrow> Inl NameError | Some c \<Rightarrow> Inr c)"

text \<open>The module as it stands: none of the three names is bound.\<close>

definition names_unbound :: names where
  "names_unbound = \<lparr>HEADING = None, ROT = None, NAV_STT = None\<rparr>"

text \<open>
  The geodesic library (\<^verbatim>\<open>pyproj.Geod\<close>) is a parameter as well. \<open>geod_inv\<close> takes
  \<open>lon1 lat1 lon2 lat2\<close> and gives forward azimuth, back azimuth and distance;
  \<open>geod_fwd\<close> takes \<open>lon lat az dist\<close> and gives longitude, latitude and back azimuth.
  Either may raise.
\<close>

record geod =
  geod_inv :: "real \<Rightarrow> real \<Rightarrow> real \<Rightarrow> real \<Rightarrow> exn + (real \<times> real \<times> real)"
  geod_fwd :: "real \<Rightarrow> real \<Rightarrow> real \<Rightarrow> real \<Rightarrow> exn + (real \<times> real \<times> real)"

section \<open>More array operations\<close>

text \<open>\<^verbatim>\<open>a[i, j]\<close>; a negative row index counts from the end.\<close>

definition cell :: "ndarray \<Rightarrow> int \<Rightarrow> nat \<Rightarrow> exn + real" where
  "cell a i j =
     (let n = int (nrows a); k = (if i < 0 then n + i else i)
      in if 0 \<le> k \<and> k < n \<and> j < ncols a then Inr (rows a ! nat k ! j) else Inl IndexError)"

text \<open>\<^verbatim>\<open>a[:, [j1, j2, ...]]\<close>.\<close>

definition take_cols :: "nat list \<Rightarrow> ndarray \<Rightarrow> exn + ndarray" where
  "take_cols js a =
     (if list_all (\<lambda>j. j < ncols a) js
      then Inr \<lparr>ncols = length js, rows = map (\<lambda>r. map (\<lambda>j. r ! j) js) (rows a)\<rparr>
      else Inl IndexError)"

text \<open>\<^verbatim>\<open>a[mask]\<close> with a boolean vector: one entry per row, or IndexError.\<close>

definition mask_rows :: "bool list \<Rightarrow> ndarray \<Rightarrow> exn + ndarray" where
  "mask_rows m a =
     (if length m = nrows a
      then Inr (a\<lparr>rows := map snd (filter fst (zip m (rows a)))\<rparr>)
      else Inl IndexError)"

text \<open>\<^verbatim>\<open>np.vstack([a, row])\<close>: the row must have as many entries as \<open>a\<close> has columns.\<close>

definition np_vstack :: "ndarray \<Rightarrow> real list \<Rightarrow> exn + ndarray" where
  "np_vstack a row =
     (if length row = ncols a then Inr (a\<lparr>rows := rows a @ [row]\<rparr>) else Inl ValueError)"

text \<open>\<^verbatim>\<open>xs[:k]\<close> for an integer \<open>k\<close>: a negative \<open>k\<close> counts from the end.\<close>

definition py_take :: "int \<Rightarrow> 'a list \<Rightarrow> 'a list" where
  "py_take k xs = (if 0 \<le> k then take (nat k) xs else take (nat (int (length xs) + k)) xs)"

text \<open>Division of two Python floats.\<close>

definition py_div :: "real \<Rightarrow> real \<Rightarrow> exn + real" where
  "py_div x y = (if y = 0 then Inl ZeroDivisionError else Inr (x / y))"

text \<open>\<^verbatim>\<open>int(x)\<close> truncates towards zero.\<close>

definition py_int :: "real \<Rightarrow> int" where
  "py_int x = (if 0 \<le> x then \<lfloor>x\<rfloor> else \<lceil>x\<rceil>)"

text \<open>\<^verbatim>\<open>range(a, b, step)\<close> for a positive step.\<close>

definition py_range :: "int \<Rightarrow> int \<Rightarrow> int \<Rightarrow> int list" where
  "py_range a b step = map (\<lambda>k. a + int k * step) [0..<nat ((b - a + step - 1) div step)]"

definition count_nonzero :: "bool list \<Rightarrow> nat" where
  "count_nonzero bs = length (filter id bs)"

fun sequence_exn :: "(exn + 'a) list \<Rightarrow> exn + 'a list" where
  "sequence_exn [] = Inr []"
| "sequence_exn (m # ms) = bind_exn m (\<lambda>x. bind_exn (sequence_exn ms) (\<lambda>xs. Inr (x # xs)))"

fun filter_exn :: "('a \<Rightarrow> exn + bool) \<Rightarrow> 'a list \<Rightarrow> exn + 'a list" where
  "filter_exn p [] = Inr []"
| "filter_exn p (x # xs) =
     bind_exn (p x) (\<lambda>keep. bind_exn (filter_exn p xs) (\<lambda>ys. Inr (if keep then x # ys else ys)))"

section \<open>Speed-based outlier detection (detectOutlier)\<close>

text \<open>
  \<^verbatim>\<open>geod.inv\<close> on arrays works element by element and refuses arrays of different
  lengths. \<open>xs\<close> and \<open>ys\<close> are the rows of \<^verbatim>\<open>track[:N-i]\<close> and \<^verbatim>\<open>track[i:]\<close>, with the
  columns \<^verbatim>\<open>[Timestamp, Lat, Lon, Speed]\<close>.
\<close>

definition geod_inv_vec :: "geod \<Rightarrow> real list list \<Rightarrow> real list list \<Rightarrow> exn + (real \<times> real \<times> real) list" where
  "geod_inv_vec g xs ys =
     (if length xs = length ys
      then sequence_exn (map2 (\<lambda>x y. geod_inv g (x ! 2) (x ! 1) (y ! 2) (y ! 1)) xs ys)
      else Inl GeodError)"

definition set_entry :: "int list list \<Rightarrow> nat \<Rightarrow> nat \<Rightarrow> int \<Rightarrow> int list list" where
  "set_entry A r c x = A[r := (A ! r)[c := x]]"

text \<open>
  One pass of the loop \<^verbatim>\<open>for i in range(1,5)\<close>: the \<open>i\<close>-th diagonal. After the
  length check of \<^verbatim>\<open>geod.inv\<close> both slices have the same number of rows; without it the
  subtraction of the timestamps would have to broadcast the two slices, which two rows
  against none cannot. \<^verbatim>\<open>np.float\<close> is the alias of \<^verbatim>\<open>float\<close> that the NumPy of the script
  has.
\<close>

definition diag_step :: "geod \<Rightarrow> real \<Rightarrow> real list list \<Rightarrow> nat \<Rightarrow> int list list \<Rightarrow> exn + int list list" where
  "diag_step g speed_max track i A =
     (let N = length track;
          xs = py_take (int N - int i) track;
          ys = drop i track
      in bind_exn (geod_inv_vec g xs ys) (\<lambda>res.
           let d = map (\<lambda>(az12, az21, dist). dist) res;
               delta_t = map2 (\<lambda>y x. y ! 0 - x ! 0) ys xs;
               cond = map2 (\<lambda>dt dd. 2 < dt \<and> speed_max * 0.514444 < dd / dt) delta_t d;
               abnormal_idx = filter (\<lambda>k. cond ! k) [0..<length cond];
               A1 = fold (\<lambda>k M. set_entry M k (k + i) 1) abnormal_idx A;
               A2 = fold (\<lambda>k M. set_entry M (k + i) k 1) abnormal_idx A1
           in Inr A2))"

fun diag_loop :: "geod \<Rightarrow> real \<Rightarrow> real list list \<Rightarrow> nat list \<Rightarrow> int list list \<Rightarrow> exn + int list list" where
  "diag_loop g speed_max track [] A = Inr A"
| "diag_loop g speed_max track (i # is) A =
     bind_exn (diag_step g speed_max track i A) (diag_loop g speed_max track is)"

text \<open>
  The result is the pair \<^verbatim>\<open>(o_report, o_calcul)\<close>; \<open>None\<close> in the second component is
  Python's \<^verbatim>\<open>None\<close>.
\<close>

definition detectOutlier :: "geod \<Rightarrow> ndarray \<Rightarrow> real \<Rightarrow> exn + (bool list \<times> bool list option)" where
  "detectOutlier g track speed_max =
     bind_exn (col 3 track) (\<lambda>speed.
       let o_report = map (\<lambda>s. speed_max < s) speed
       in if list_all id o_report then Inr (o_report, None)
          else
            (let track1 = map snd (filter (\<lambda>(ob, r). \<not> ob) (zip o_report (rows track)));
                 N = length track1;
                 A = replicate N (replicate N 0)
             in bind_exn (diag_loop g speed_max track1 [1..<5] A) (\<lambda>A'.
                bind_exn (trackOutlier A') (\<lambda>o_calcul. Inr (o_report, Some o_calcul)))))"

section \<open>Interpolation (interpolate_)\<close>

text \<open>\<^verbatim>\<open>(track[apos,c] - track[bpos,c])*(dt_interp/dt_full) + track[bpos,c]\<close>.\<close>

definition lin_interp :: "ndarray \<Rightarrow> nat \<Rightarrow> nat \<Rightarrow> nat \<Rightarrow> real \<Rightarrow> real \<Rightarrow> exn + real" where
  "lin_interp track apos bpos c dt_interp dt_full =
     bind_exn (cell track (int apos) c) (\<lambda>a.
     bind_exn (cell track (int bpos) c) (\<lambda>b.
     bind_exn (py_div dt_interp dt_full) (\<lambda>f.
     Inr ((a - b) * f + b))))"

text \<open>
  The body of the \<^verbatim>\<open>try\<close> block, statement by statement. Its value is
  \<open>(lat_interp, lon_interp, speed_interp, course_interp, heading_interp, rot_interp,
  nav_interp)\<close>.
\<close>

definition interp_try ::
  "names \<Rightarrow> geod \<Rightarrow> ndarray \<Rightarrow> nat \<Rightarrow> nat \<Rightarrow> real \<Rightarrow> real
   \<Rightarrow> exn + (real \<times> real \<times> real \<times> real \<times> real \<times> real \<times> real)" where
  "interp_try env g track apos bpos dt_interp dt_full =
     bind_exn (cell track (int bpos) LON) (\<lambda>lon_b.
     bind_exn (cell track (int bpos) LAT) (\<lambda>lat_b.
     bind_exn (cell track (int apos) LON) (\<lambda>lon_a.
     bind_exn (cell track (int apos) LAT) (\<lambda>lat_a.
     bind_exn (geod_inv g lon_b lat_b lon_a lat_a) (\<lambda>(az, back_az, dist).
     bind_exn (py_div dt_interp dt_full) (\<lambda>f.
     bind_exn (geod_fwd g lon_b lat_b az (dist * f)) (\<lambda>(lon_interp, lat_interp, back_az2).
     bind_exn (lin_interp track apos bpos SOG dt_interp dt_full) (\<lambda>speed_interp.
     bind_exn (lin_interp track apos bpos COG dt_interp dt_full) (\<lambda>course_interp.
     bind_exn (lookup (HEADING env)) (\<lambda>heading.
     bind_exn (lin_interp track apos bpos heading dt_interp dt_full) (\<lambda>heading_interp.
     bind_exn (lookup (ROT env)) (\<lambda>rot.
     bind_exn (lin_interp track apos bpos rot dt_interp dt_full) (\<lambda>rot_interp.
     bind_exn (lookup (NAV_STT env)) (\<lambda>nav_stt.
     bind_exn (if dt_full / 2 < dt_interp then cell track (int apos) nav_stt
               else cell track (int bpos) nav_stt) (\<lambda>nav_interp.
     Inr (lat_interp, lon_interp, speed_interp, course_interp, heading_interp, rot_interp,
          nav_interp))))))))))))))))"

text \<open>
  \<^verbatim>\<open>interpolate_(t, track)\<close>, here \<open>interpolate'\<close>. \<open>Inr None\<close> is the return value \<^verbatim>\<open>None\<close>; the bare
  \<^verbatim>\<open>except\<close> turns every exception of the \<^verbatim>\<open>try\<close> block into it. The first lines and
  the \<^verbatim>\<open>return\<close> statement lie outside the \<^verbatim>\<open>try\<close>. \<open>before_p\<close> and \<open>after_p\<close>
  are the index vectors of \<^verbatim>\<open>np.nonzero\<close>, for the timestamp column \<open>ts\<close>.
\<close>

definition before_p :: "real \<Rightarrow> real list \<Rightarrow> nat list" where
  "before_p t ts = filter (\<lambda>i. ts ! i \<le> t) [0..<length ts]"

definition after_p :: "real \<Rightarrow> real list \<Rightarrow> nat list" where
  "after_p t ts = filter (\<lambda>i. t < ts ! i) [0..<length ts]"

definition interpolate' :: "names \<Rightarrow> geod \<Rightarrow> real \<Rightarrow> ndarray \<Rightarrow> exn + real list option" where
  "interpolate' env g t track =
     bind_exn (col TIMESTAMP track) (\<lambda>ts.
       if before_p t ts \<noteq> [] \<and> after_p t ts \<noteq> [] then
         (let apos = hd (after_p t ts);
              bpos = last (before_p t ts);
              dt_full = ts ! apos - ts ! bpos
          in if 2 * 3600 < \<bar>dt_full\<bar> then Inr None
             else
               (let dt_interp = t - ts ! bpos
                in case interp_try env g track apos bpos dt_interp dt_full of
                     Inl e \<Rightarrow> Inr None
                   | Inr (lat_interp, lon_interp, speed_interp, course_interp,
                          heading_interp, rot_interp, nav_interp) \<Rightarrow>
                       bind_exn (cell track 0 MMSI) (\<lambda>mmsi.
                         Inr (Some [lat_interp, lon_interp, speed_interp, course_interp,
                                    heading_interp, rot_interp, t, mmsi, nav_interp]))))
       else Inr None)"

section \<open>The pipeline stages\<close>

text \<open>
  The dictionaries \<^verbatim>\<open>voyages\<close>, \<^verbatim>\<open>Vs\<close> and \<^verbatim>\<open>Data\<close> are keyed by a running counter and
  only ever read through \<^verbatim>\<open>list(d.keys())\<close>; they are lists of their values in
  insertion order, and \<^verbatim>\<open>pop\<close> removes an entry.
\<close>

subsection \<open>Voyage segmentation\<close>

text \<open>The body of the first loop for one vessel: the tracks it stores, in order.\<close>

definition split_voyages :: "ndarray \<Rightarrow> exn + ndarray list" where
  "split_voyages v =
     (if 0 < nrows v then
        bind_exn (col TIMESTAMP v) (\<lambda>ts.
          let intervals = map2 (\<lambda>a b. a - b) (tl ts) (butlast ts);
              idx = filter (\<lambda>i. INTERVAL_MAX < intervals ! i) [0..<length intervals]
          in if idx = [] then Inr [v]
             else Inr (map (\<lambda>t. v\<lparr>rows := t\<rparr>) (np_split (rows v) (map Suc idx))))
      else Inr [])"

fun segmentation :: "ndarray list \<Rightarrow> exn + ndarray list" where
  "segmentation [] = Inr []"
| "segmentation (v # traj_data) =
     bind_exn (split_voyages v) (\<lambda>tmp.
     bind_exn (segmentation traj_data) (\<lambda>voyages. Inr (tmp @ voyages)))"

text \<open>The test of the second loop: \<open>True\<close> when the voyage is popped.\<close>

definition too_short :: "ndarray \<Rightarrow> exn + bool" where
  "too_short v =
     bind_exn (cell v (- 1) TIMESTAMP) (\<lambda>t_last.
     bind_exn (cell v 0 TIMESTAMP) (\<lambda>t_first.
       let duration = t_last - t_first
       in Inr (nrows v < 75 \<or> duration < 6 * 3600)))"

definition length_filter :: "ndarray list \<Rightarrow> exn + ndarray list" where
  "length_filter voyages = filter_exn (\<lambda>v. bind_exn (too_short v) (\<lambda>b. Inr (\<not> b))) voyages"

subsection \<open>Removing anomalous messages\<close>

text \<open>\<^verbatim>\<open>o_calcul.all()\<close>: \<^verbatim>\<open>None\<close> has no such attribute.\<close>

definition opt_all :: "bool list option \<Rightarrow> exn + bool" where
  "opt_all ov = (case ov of None \<Rightarrow> Inl AttributeError | Some oc \<Rightarrow> Inr (list_all id oc))"

text \<open>
  The \<^verbatim>\<open>try\<close> body for one voyage \<open>v\<close>: \<open>None\<close> when the voyage is popped, \<open>Some v'\<close>
  when it is replaced by \<open>v'\<close>. \<^verbatim>\<open>or\<close> evaluates \<^verbatim>\<open>o_calcul.all()\<close> only when
  \<^verbatim>\<open>o_report.all()\<close> is false.
\<close>

definition anomaly_try :: "geod \<Rightarrow> ndarray \<Rightarrow> ndarray \<Rightarrow> exn + ndarray option" where
  "anomaly_try g v track =
     bind_exn (detectOutlier g track 30) (\<lambda>(o_report, o_calcul).
     bind_exn (if list_all id o_report then Inr True else opt_all o_calcul) (\<lambda>discard.
       if discard then Inr None
       else
         bind_exn (mask_rows (map Not o_report) v) (\<lambda>v1.
         bind_exn (case o_calcul of None \<Rightarrow> Inl TypeError
                   | Some oc \<Rightarrow> mask_rows (map Not oc) v1) (\<lambda>v2.
         Inr (Some v2)))))"

text \<open>
  The loop: the state is \<^verbatim>\<open>voyages\<close> and \<^verbatim>\<open>error_count\<close>. The column selection in
  front of the \<^verbatim>\<open>try\<close> is not guarded.
\<close>

fun anomaly_loop :: "geod \<Rightarrow> ndarray list \<Rightarrow> nat \<Rightarrow> exn + (ndarray list \<times> nat)" where
  "anomaly_loop g [] error_count = Inr ([], error_count)"
| "anomaly_loop g (v # voyages) error_count =
     bind_exn (take_cols [TIMESTAMP, LAT, LON, SOG] v) (\<lambda>track.
       case anomaly_try g v track of
         Inl e \<Rightarrow> anomaly_loop g voyages (error_count + 1)
       | Inr None \<Rightarrow> anomaly_loop g voyages error_count
       | Inr (Some v') \<Rightarrow>
           bind_exn (anomaly_loop g voyages error_count) (\<lambda>(rest, c). Inr (v' # rest, c)))"

subsection \<open>Sampling\<close>

text \<open>
  The inner loop over the target timestamps, from \<^verbatim>\<open>sampling_track\<close> = \<open>acc\<close>:
  \<open>Inr None\<close> when an interpolation is unavailable (\<^verbatim>\<open>sampling_track = None; break\<close>).
\<close>

fun sampling_walk :: "names \<Rightarrow> geod \<Rightarrow> ndarray \<Rightarrow> int list \<Rightarrow> ndarray \<Rightarrow> exn + ndarray option" where
  "sampling_walk env g v [] acc = Inr (Some acc)"
| "sampling_walk env g v (t # ts) acc =
     bind_exn (interpolate' env g (of_int t) v) (\<lambda>tmp.
       case tmp of
         None \<Rightarrow> Inr None
       | Some row \<Rightarrow> bind_exn (np_vstack acc row) (sampling_walk env g v ts))"

definition resolution :: int where "resolution = 5 * 60"

definition sample_voyage :: "names \<Rightarrow> geod \<Rightarrow> ndarray \<Rightarrow> exn + ndarray option" where
  "sample_voyage env g v =
     bind_exn (cell v 0 TIMESTAMP) (\<lambda>t_first.
     bind_exn (cell v (- 1) TIMESTAMP) (\<lambda>t_last.
       sampling_walk env g v (py_range (py_int t_first) (py_int t_last) resolution)
         \<lparr>ncols = 8, rows = []\<rparr>))"

fun sampling_loop :: "names \<Rightarrow> geod \<Rightarrow> ndarray list \<Rightarrow> exn + ndarray list" where
  "sampling_loop env g [] = Inr []"
| "sampling_loop env g (v # voyages) =
     bind_exn (sample_voyage env g v) (\<lambda>sampling_track.
     bind_exn (sampling_loop env g voyages) (\<lambda>Vs.
       Inr (case sampling_track of None \<Rightarrow> Vs | Some s \<Rightarrow> s # Vs)))"

subsection \<open>Re-splitting and quality filters\<close>

definition resplit_loop :: "ndarray list \<Rightarrow> ndarray list" where
  "resplit_loop Vs = concat (map resplit Vs)"

text \<open>
  The condition of the first \<^verbatim>\<open>if\<close> in the moored/anchor loop. \<^verbatim>\<open>or\<close> evaluates its
  second operand only when the first is false.
\<close>

definition moored_or_anchor :: "ndarray \<Rightarrow> exn + bool" where
  "moored_or_anchor d =
     (let d_L = real (nrows d)
      in bind_exn (col NAV d) (\<lambda>nav.
         bind_exn (py_div (real (count_nonzero (map (\<lambda>x. x = 7) nav))) d_L) (\<lambda>f7.
           if 0.7 < f7 then Inr True
           else bind_exn (py_div (real (count_nonzero (map (\<lambda>x. x = 8) nav))) d_L) (\<lambda>f8.
                  Inr (0.7 < f8)))))"

text \<open>The body of that loop for one block: \<open>True\<close> when the block stays in \<^verbatim>\<open>Data\<close>.\<close>

definition moored_keep :: "ndarray \<Rightarrow> exn + bool" where
  "moored_keep d =
     bind_exn (moored_or_anchor d) (\<lambda>m.
       if m then Inr False
       else bind_exn (col SOG d) (\<lambda>sog.
            bind_exn (np_max sog) (\<lambda>sog_max. Inr (\<not> sog_max < 1))))"

definition low_speed_keep :: "ndarray \<Rightarrow> exn + bool" where
  "low_speed_keep d =
     (let d_L = real (nrows d)
      in bind_exn (col SOG d) (\<lambda>sog.
         bind_exn (py_div (real (count_nonzero (map (\<lambda>x. x < 2) sog))) d_L) (\<lambda>f.
           Inr (\<not> 0.8 < f))))"

subsection \<open>The whole script\<close>

text \<open>
  The stages in order, from the loaded \<^verbatim>\<open>traj_data\<close> (the \<^verbatim>\<open>"traj"\<close> arrays in key order)
  to \<^verbatim>\<open>Data\<close> and \<^verbatim>\<open>error_count\<close>. \<open>Inl\<close> is an exception that leaves the script.
\<close>

definition pipeline :: "names \<Rightarrow> geod \<Rightarrow> ndarray list \<Rightarrow> exn + (ndarray list \<times> nat)" where
  "pipeline env g traj_data =
     bind_exn (segmentation traj_data) (\<lambda>voyages0.
     bind_exn (length_filter voyages0) (\<lambda>voyages1.
     bind_exn (anomaly_loop g voyages1 0) (\<lambda>(voyages, error_count).
     bind_exn (sampling_loop env g voyages) (\<lambda>Vs.
     bind_exn (filter_exn moored_keep (resplit_loop Vs)) (\<lambda>Data1.
     bind_exn (filter_exn low_speed_keep Data1) (\<lambda>Data.
     Inr (Data, error_count)))))))"

section \<open>The specification's wording and sample inputs\<close>

text \<open>
  The moored/anchor criterion in the words of the specification: the fraction of the
  block's messages whose navigational status, read from column \<open>c\<close>, equals 7 or 8
  exceeds 0.7.
\<close>

definition spec_moored_exceeds :: "nat \<Rightarrow> ndarray \<Rightarrow> bool" where
  "spec_moored_exceeds c d =
     (0.7 < real (count_nonzero (map (\<lambda>r. r ! c = 7 \<or> r ! c = 8) (rows d))) / real (nrows d))"

text \<open>
  A block of 144 rows in the layout \<^verbatim>\<open>interpolate_\<close> returns, moving at 5 knots: half of
  the rows carry status 7 and half status 8, both in column \<open>NAV\<close> and in the last
  column.
\<close>

definition mixed_block :: ndarray where
  "mixed_block = \<lparr>ncols = 9,
      rows = replicate 72 [0, 0, 5, 0, 0, 7, 0, 1, 7] @ replicate 72 [0, 0, 5, 0, 0, 8, 0, 1, 8]\<rparr>"

text \<open>144 rows in that layout, all with status 7 in the last column and rate of turn 0.\<close>

definition moored_block :: ndarray where
  "moored_block = \<lparr>ncols = 9, rows = replicate 144 [0, 0, 5, 0, 0, 0, 0, 1, 7]\<rparr>"

text \<open>Ten rows, seven of them with the value 7 in column \<open>NAV\<close>: exactly 70 percent.\<close>

definition seventy_block :: ndarray where
  "seventy_block = \<lparr>ncols = 9,
      rows = replicate 7 [0, 0, 5, 0, 0, 7, 0, 1, 7] @ replicate 3 [0, 0, 5, 0, 0, 0, 0, 1, 0]\<rparr>"

text \<open>
  Bindings that the three free names could be given, on tracks that carry the module's
  eight columns and the rate of turn in a ninth. The module has no such bindings.
\<close>

definition names_sample :: names where
  "names_sample = \<lparr>HEADING = Some 4, ROT = Some 8, NAV_STT = Some 5\<rparr>"

text \<open>
  Two stand-ins for the geodesic library, to run the model on concrete tracks: one that
  measures along a meridian (the distance is the difference of the latitudes, a forward
  step changes the latitude), and one that always raises.
\<close>

definition geod_meridian :: geod where
  "geod_meridian =
     \<lparr>geod_inv = (\<lambda>lon1 lat1 lon2 lat2. Inr (0, 180, lat2 - lat1)),
      geod_fwd = (\<lambda>lon lat az dist. Inr (lon, lat + dist, 180))\<rparr>"

definition geod_failing :: geod where
  "geod_failing =
     \<lparr>geod_inv = (\<lambda>lon1 lat1 lon2 lat2. Inl GeodError),
      geod_fwd = (\<lambda>lon lat az dist. Inl GeodError)\<rparr>"

text \<open>Two messages one hour apart: latitude, longitude, speed, course, heading, status,
  timestamp, vessel, rate of turn.\<close>

definition track2 :: ndarray where
  "track2 = \<lparr>ncols = 9,
      rows = [[10, 20, 5, 90, 91, 0, 0, 1, 2], [11, 20, 7, 94, 95, 1, 3600, 1, 4]]\<rparr>"

text \<open>A voyage of which one message is left, in the same layout.\<close>

definition track1 :: ndarray where
  "track1 = \<lparr>ncols = 9, rows = [[10, 20, 5, 90, 91, 0, 0, 1, 2]]\<rparr>"


text \<open>Two messages with reported speeds above 30 knots, in the columns of
  \<^verbatim>\<open>detectOutlier\<close>: timestamp, latitude, longitude, speed.\<close>

definition fast_track :: ndarray where
  "fast_track = \<lparr>ncols = 4, rows = [[0, 10, 20, 31], [60, 10, 20, 45]]\<rparr>"

text \<open>
  Segmentation in the words of the specification: walk along the stream and start a new
  voyage at every pair of neighbours that \<open>P\<close> separates.
\<close>

fun spec_split_at_gaps :: "('a \<Rightarrow> 'a \<Rightarrow> bool) \<Rightarrow> 'a list \<Rightarrow> 'a list list" where
  "spec_split_at_gaps P [] = [[]]"
| "spec_split_at_gaps P [x] = [[x]]"
| "spec_split_at_gaps P (x # y # r) =
     (if P x y then [x] # spec_split_at_gaps P (y # r)
      else (case spec_split_at_gaps P (y # r) of
              [] \<Rightarrow> [[x]]
            | p # ps \<Rightarrow> (x # p) # ps))"

text \<open>The positions \<open>i\<close> whose successor is separated from them: \<^verbatim>\<open>np.where(intervals > INTERVAL_MAX)[0]\<close>.\<close>

definition gap_idx :: "('a \<Rightarrow> 'a \<Rightarrow> bool) \<Rightarrow> 'a list \<Rightarrow> nat list" where
  "gap_idx P xs = filter (\<lambda>i. P (xs ! i) (xs ! Suc i)) [0..<length xs - 1]"

text \<open>Two messages more than \<open>INTERVAL_MAX\<close> seconds apart.\<close>

definition too_long_gap :: "real list \<Rightarrow> real list \<Rightarrow> bool" where
  "too_long_gap x y = (INTERVAL_MAX < y ! TIMESTAMP - x ! TIMESTAMP)"

text \<open>Three messages in the module's eight columns, at 0 s, 100 s and 10000 s.\<close>

definition gap_track :: ndarray where
  "gap_track = \<lparr>ncols = 8,
      rows = [[10, 20, 5, 90, 91, 0, 0, 1], [10, 20, 5, 90, 91, 0, 100, 1],
              [10, 20, 5, 90, 91, 0, 10000, 1]]\<rparr>"


text \<open>
  The criterion of the calculated-speed filter for an earlier message \<open>x\<close> and a later
  message \<open>y\<close> (columns timestamp, latitude, longitude, speed): more than 2 seconds apart
  and distance over time above \<open>speed_max\<close> knots in metres per second.
\<close>

definition speed_anomalous :: "geod \<Rightarrow> real \<Rightarrow> real list \<Rightarrow> real list \<Rightarrow> bool" where
  "speed_anomalous g speed_max x y =
     (case geod_inv g (x ! 2) (x ! 1) (y ! 2) (y ! 1) of
        Inl e \<Rightarrow> False
      | Inr (az12, az21, d) \<Rightarrow> 2 < y ! 0 - x ! 0 \<and> speed_max * 0.514444 < d / (y ! 0 - x ! 0))"

text \<open>
  The pairwise matrix in the words of the specification: entry \<open>(r, c)\<close> is 1 exactly
  when the two indices are 1 to 4 apart and the pair is anomalous.
\<close>

definition spec_banded_matrix :: "geod \<Rightarrow> real \<Rightarrow> real list list \<Rightarrow> int list list" where
  "spec_banded_matrix g speed_max track =
     map (\<lambda>r. map (\<lambda>c.
            if (r < c \<and> c - r \<le> 4 \<and> speed_anomalous g speed_max (track ! r) (track ! c))
             \<or> (c < r \<and> r - c \<le> 4 \<and> speed_anomalous g speed_max (track ! c) (track ! r))
            then 1 else 0) [0..<length track]) [0..<length track]"

text \<open>Three messages at 5 knots, five minutes apart.\<close>

definition three_track :: ndarray where
  "three_track = \<lparr>ncols = 4, rows = [[0, 10, 20, 5], [300, 11, 20, 5], [600, 12, 20, 5]]\<rparr>"

text \<open>An \<open>n \<times> n\<close> matrix, and the entries that diagonal \<open>i\<close> sets.\<close>

definition is_matrix :: "nat \<Rightarrow> int list list \<Rightarrow> bool" where
  "is_matrix n A = (length A = n \<and> (\<forall>i<n. length (A ! i) = n))"

definition hit :: "geod \<Rightarrow> real \<Rightarrow> real list list \<Rightarrow> nat \<Rightarrow> nat \<Rightarrow> nat \<Rightarrow> bool" where
  "hit g speed_max track i r c =
     ((c = r + i \<and> speed_anomalous g speed_max (track ! r) (track ! c))
      \<or> (r = c + i \<and> speed_anomalous g speed_max (track ! c) (track ! r)))"


text \<open>
  A vessel with 75 messages, one every five minutes (6 h 10 min in all), at 5 knots, each
  one unit of latitude after the other on one meridian; and its four columns timestamp,
  latitude, longitude, speed.
\<close>

definition message75 :: "nat \<Rightarrow> real list" where
  "message75 k = [10 + real k, 20, 5, 90, 91, 0, 300 * real k, 1, 2]"

definition track75 :: ndarray where
  "track75 = \<lparr>ncols = 9, rows = map message75 [0..<75]\<rparr>"

definition columns75 :: "nat \<Rightarrow> real list" where
  "columns75 k = [300 * real k, 10 + real k, 20, 5]"

text \<open>
  The same vessel reporting 31 knots in its first 72 messages: three messages are left
  after the reported-speed filter.
\<close>

definition message_fault :: "nat \<Rightarrow> real list" where
  "message_fault k = [10 + real k, 20, if k < 72 then 31 else 5, 90, 91, 0, 300 * real k, 1, 2]"

definition fault75 :: ndarray where
  "fault75 = \<lparr>ncols = 9, rows = map message_fault [0..<75]\<rparr>"

text \<open>
  A voyage for which the \<^verbatim>\<open>try\<close> body of the anomaly-removal loop raises.
\<close>

definition try_raises :: "geod \<Rightarrow> ndarray \<Rightarrow> bool" where
  "try_raises g v =
     (case take_cols [TIMESTAMP, LAT, LON, SOG] v of
        Inl e \<Rightarrow> False
      | Inr track \<Rightarrow> isl (anomaly_try g v track))"

section \<open>Basic facts\<close>

lemma bind_exn_simps [simp]:
  "bind_exn (Inl e) f = Inl e" "bind_exn (Inr x) f = f x"
  by (simp_all add: bind_exn_def)

lemma col_length: "col j a = Inr xs \<Longrightarrow> length xs = nrows a"
  by (auto simp: col_def nrows_def split: if_splits)

lemma col_nth: "col j a = Inr xs \<Longrightarrow> i < nrows a \<Longrightarrow> xs ! i = rows a ! i ! j"
  by (auto simp: col_def nrows_def split: if_splits)

lemma cell_0: "0 < nrows a \<Longrightarrow> j < ncols a \<Longrightarrow> cell a 0 j = Inr (rows a ! 0 ! j)"
  by (simp add: cell_def)

lemma cell_nat: "i < nrows a \<Longrightarrow> j < ncols a \<Longrightarrow> cell a (int i) j = Inr (rows a ! i ! j)"
  by (simp add: cell_def)

lemma filter_upt_prefix:
  assumes "k \<le> n" and "\<And>j. j < k \<Longrightarrow> P j" and "\<And>j. k \<le> j \<Longrightarrow> j < n \<Longrightarrow> \<not> P j"
  shows "filter P [0..<n] = [0..<k]"
proof -
  have "[0..<n] = [0..<k] @ [k..<n]" using assms(1) by (metis le_add_diff_inverse upt_add_eq_append zero_le)
  moreover have "filter P [0..<k] = [0..<k]" using assms(2) by (simp add: filter_id_conv)
  moreover have "filter P [k..<n] = []" using assms(3) by (simp add: filter_empty_conv)
  ultimately show ?thesis by simp
qed

lemma filter_upt_suffix:
  assumes "k \<le> n" and "\<And>j. j < k \<Longrightarrow> \<not> P j" and "\<And>j. k \<le> j \<Longrightarrow> j < n \<Longrightarrow> P j"
  shows "filter P [0..<n] = [k..<n]"
proof -
  have "[0..<n] = [0..<k] @ [k..<n]" using assms(1) by (metis le_add_diff_inverse upt_add_eq_append zero_le)
  moreover have "filter P [0..<k] = []" using assms(2) by (simp add: filter_empty_conv)
  moreover have "filter P [k..<n] = [k..<n]" using assms(3) by (simp add: filter_id_conv)
  ultimately show ?thesis by simp
qed

lemma isl_bind1: "isl m \<Longrightarrow> isl (bind_exn m f)"
  by (cases m) simp_all

lemma isl_bindI: "(\<And>x. m = Inr x \<Longrightarrow> isl (f x)) \<Longrightarrow> isl (bind_exn m f)"
  by (cases m) simp_all

lemma case_isl: "isl m \<Longrightarrow> (case m of Inl e \<Rightarrow> a | Inr x \<Rightarrow> f x) = a"
  by (cases m) simp_all

lemma cell_last: "0 < nrows a \<Longrightarrow> j < ncols a \<Longrightarrow> cell a (- 1) j = Inr (last (rows a) ! j)"
  by (cases "rows a" rule: rev_cases) (auto simp: cell_def nrows_def nth_append)

section \<open>Properties of re-splitting\<close>

lemma np_arange0_nth: "k < length (np_arange0 n s) \<Longrightarrow> np_arange0 n s ! k = k * s"
  by (simp add: np_arange0_def)

lemma length_np_arange0: "length (np_arange0 n s) = (n + s - 1) div s"
  by (simp add: np_arange0_def)

lemma np_split_chunks:
  assumes s: "0 < s" and n: "0 < length xs"
  shows "np_split xs (tl (np_arange0 (length xs) s)) =
         map (\<lambda>k. py_slice (k * s) (min (Suc k * s) (length xs)) xs) [0..<(length xs + s - 1) div s]"
proof -
  let ?n = "length xs"
  let ?c = "(?n + s - 1) div s"
  let ?ar = "np_arange0 ?n s"
  have "s \<le> ?n + s - 1" using n by linarith
  then have cpos: "0 < ?c" using s by (simp add: div_greater_zero_iff)
  have lar: "length ?ar = ?c" by (rule length_np_arange0)
  have a: "0 # tl ?ar = map (\<lambda>k. k * s) [0..<?c]"
    using cpos by (cases "?c") (simp_all add: np_arange0_def upt_conv_Cons del: upt_Suc)
  have cb: "(?c - 1) * s < ?n"
  proof -
    have "?c * s \<le> ?n + s - 1" using div_mult_mod_eq[of "?n + s - 1" s] by linarith
    moreover have "?c * s = (?c - 1) * s + s" using cpos by (cases ?c) simp_all
    ultimately show ?thesis using s by linarith
  qed
  have cu: "?n \<le> ?c * s"
  proof -
    have "?n + s - 1 < ?c * s + s" using s div_mult_mod_eq[of "?n + s - 1" s] mod_less_divisor[OF s, of "?n + s - 1"] by linarith
    then show ?thesis using s by linarith
  qed
  have b: "tl ?ar @ [?n] = map (\<lambda>k. min (Suc k * s) ?n) [0..<?c]"
  proof (rule nth_equalityI)
    show "length (tl ?ar @ [?n]) = length (map (\<lambda>k. min (Suc k * s) ?n) [0..<?c])"
      using cpos lar by simp
  next
    fix i assume "i < length (tl ?ar @ [?n])"
    then have i: "i < ?c" using lar cpos by simp
    show "(tl ?ar @ [?n]) ! i = map (\<lambda>k. min (Suc k * s) ?n) [0..<?c] ! i"
    proof (cases "Suc i < ?c")
      case True
      then have "i < length (tl ?ar)" using lar by simp
      then have "(tl ?ar @ [?n]) ! i = ?ar ! Suc i"
        by (simp add: nth_append nth_tl)
      also have "\<dots> = Suc i * s" using True lar by (simp add: np_arange0_nth)
      also have "Suc i * s \<le> (?c - 1) * s" using True by (intro mult_le_mono1) linarith
      then have "Suc i * s = min (Suc i * s) ?n" using cb by linarith
      finally show ?thesis using i by simp
    next
      case False
      then have e: "Suc i = ?c" using i by linarith
      then have "length (tl ?ar) = i" using lar by simp
      then have "(tl ?ar @ [?n]) ! i = ?n" by (simp add: nth_append)
      moreover have "min (Suc i * s) ?n = ?n" using cu e by simp
      ultimately show ?thesis using i by simp
    qed
  qed
  show ?thesis
    unfolding np_split_def a b by (simp add: zip_map_map zip_same_conv_map)
qed


lemma py_slice_chunk:
  "py_slice (k * s) (min (Suc k * s) (length xs)) xs = take s (drop (k * s) xs)"
proof -
  have "drop (k * s) (take (min (Suc k * s) (length xs)) xs) = drop (k * s) (take (Suc k * s) xs)"
    by (simp add: min_def)
  also have "\<dots> = take (Suc k * s - k * s) (drop (k * s) xs)" by (simp add: drop_take)
  finally show ?thesis by (simp add: py_slice_def)
qed

lemma filter_full_chunks:
  assumes s: "0 < s"
  shows "filter (\<lambda>p. s \<le> length p) (map (\<lambda>k. take s (drop (k * s) xs)) [0..<c]) =
         map (\<lambda>k. take s (drop (k * s) xs)) [0..<min c (length xs div s)]"
proof (induction c)
  case 0
  show ?case by simp
next
  case (Suc c)
  have iff: "s \<le> length (take s (drop (c * s) xs)) \<longleftrightarrow> c < length xs div s"
  proof -
    have "s \<le> length (take s (drop (c * s) xs)) \<longleftrightarrow> c * s + s \<le> length xs" using s by auto
    also have "\<dots> \<longleftrightarrow> Suc c * s \<le> length xs" by (simp add: add.commute)
    also have "\<dots> \<longleftrightarrow> Suc c \<le> length xs div s" using s by (simp add: less_eq_div_iff_mult_less_eq)
    finally show ?thesis by auto
  qed
  show ?case
  proof (cases "c < length xs div s")
    case True
    then have "min (Suc c) (length xs div s) = Suc (min c (length xs div s))" by simp
    then show ?thesis using Suc True iff by simp
  next
    case False
    then have "min (Suc c) (length xs div s) = min c (length xs div s)" by simp
    then show ?thesis using Suc False iff by simp
  qed
qed

lemma resplit_rows:
  "map rows (resplit v) =
   map (\<lambda>k. take 144 (drop (k * 144) (rows v))) [0..<nrows v div 144]"
proof (cases "rows v = []")
  case True
  then show ?thesis
    by (simp add: resplit_def nrows_def np_arange0_def np_split_def py_slice_def
        one_hour_def DURATION_MAX_def)
next
  case False
  then have n: "0 < length (rows v)" by simp
  have le: "length (rows v) div 144 \<le> (length (rows v) + 144 - 1) div 144"
    by (intro div_le_mono) simp
  have "map rows (resplit v) =
        filter (\<lambda>p. 144 \<le> length p) (np_split (rows v) (tl (np_arange0 (length (rows v)) 144)))"
    by (simp add: resplit_def nrows_def one_hour_def DURATION_MAX_def comp_def)
  also have "\<dots> = filter (\<lambda>p. 144 \<le> length p)
        (map (\<lambda>k. take 144 (drop (k * 144) (rows v))) [0..<(length (rows v) + 144 - 1) div 144])"
    using np_split_chunks[of 144 "rows v"] n by (simp only: py_slice_chunk)
  also have "\<dots> = map (\<lambda>k. take 144 (drop (k * 144) (rows v)))
        [0..<min ((length (rows v) + 144 - 1) div 144) (length (rows v) div 144)]"
    by (rule filter_full_chunks) simp
  finally show ?thesis using le by (simp add: nrows_def min_def)
qed

lemma concat_chunks:
  "concat (map (\<lambda>k. take s (drop (k * s) xs)) [0..<q]) = take (q * s) xs"
proof (induction q)
  case 0
  show ?case by simp
next
  case (Suc q)
  have "take (q * s) xs @ take s (drop (q * s) xs) = take (q * s + s) xs"
    by (simp add: take_add)
  then show ?case using Suc by (simp add: add.commute)
qed

text \<open>
  Claim C9. Re-segmentation of a sampled track produces blocks of exactly 144 samples:
  the blocks stored are the consecutive slices \<open>v[144k : 144(k+1)]\<close> for
  \<open>k < len(v) div 144\<close>, every one of length 144 and with the columns of \<open>v\<close>; the
  trailing \<open>len(v) mod 144\<close> samples belong to no block.
\<close>

theorem resplit_blocks:
  "map rows (resplit v) = map (\<lambda>k. take 144 (drop (k * 144) (rows v))) [0..<nrows v div 144]
   \<and> list_all (\<lambda>blk. nrows blk = 144 \<and> ncols blk = ncols v) (resplit v)
   \<and> length (resplit v) = nrows v div 144
   \<and> concat (map rows (resplit v)) = take (nrows v div 144 * 144) (rows v)"
proof (intro conjI)
  show r: "map rows (resplit v) = map (\<lambda>k. take 144 (drop (k * 144) (rows v))) [0..<nrows v div 144]"
    by (rule resplit_rows)
  have "list_all (\<lambda>p. length p = 144) (map rows (resplit v))"
  proof -
    have "\<And>k. k < nrows v div 144 \<Longrightarrow> k * 144 + 144 \<le> length (rows v)"
    proof -
      fix k assume "k < nrows v div 144"
      then have "Suc k \<le> length (rows v) div 144" by (simp add: nrows_def)
      then have "Suc k * 144 \<le> length (rows v)" by (simp add: less_eq_div_iff_mult_less_eq)
      then show "k * 144 + 144 \<le> length (rows v)" by simp
    qed
    then have "\<And>k. k < nrows v div 144 \<Longrightarrow> length (take 144 (drop (k * 144) (rows v))) = 144"
      by fastforce
    then show ?thesis unfolding r by (simp add: list_all_iff)
  qed
  moreover have "list_all (\<lambda>blk. ncols blk = ncols v) (resplit v)"
    by (simp add: resplit_def list_all_iff Let_def)
  ultimately show "list_all (\<lambda>blk. nrows blk = 144 \<and> ncols blk = ncols v) (resplit v)"
    by (auto simp: list_all_iff nrows_def)
  show "length (resplit v) = nrows v div 144"
    using arg_cong[OF r, of length] by simp
  show "concat (map rows (resplit v)) = take (nrows v div 144 * 144) (rows v)"
    unfolding r by (rule concat_chunks)
qed

theorem resplit_blocks_witness:
  "list_all (\<lambda>blk. nrows blk = 144 \<and> ncols blk = 1)
     (resplit \<lparr>ncols = 1, rows = map (\<lambda>k. [real k]) [0..<300]\<rparr>)
   \<and> length (resplit \<lparr>ncols = 1, rows = map (\<lambda>k. [real k]) [0..<300]\<rparr>) = 2"
  using resplit_blocks[of "\<lparr>ncols = 1, rows = map (\<lambda>k. [real k]) [0..<300]\<rparr>"]
  by (simp add: nrows_def)

section \<open>Properties of outlier selection\<close>

lemma np_max_Inr: "np_max b = Inr m \<Longrightarrow> b \<noteq> [] \<and> m = Max (set b)"
  using Max.set_eq_fold[of "hd b" "tl b"] by (cases b) (auto simp: np_max_def)

lemma np_max_nonempty: "b \<noteq> [] \<Longrightarrow> \<exists>m. np_max b = Inr m"
  by (cases b) (auto simp: np_max_def)

lemma np_argmax_props:
  fixes b :: "int list"
  assumes "b \<noteq> []"
  shows "np_argmax b < length b" and "b ! np_argmax b = Max (set b)"
    and "\<forall>j < np_argmax b. b ! j < Max (set b)"
proof -
  obtain x xs where b: "b = x # xs" using assms by (cases b) auto
  have m: "fold max (tl b) (hd b) = Max (set b)" using Max.set_eq_fold[of x xs] by (simp add: b)
  let ?P = "\<lambda>x. x \<noteq> Max (set b)"
  have "Max (set b) \<in> set b" using assms by (intro Max_in) auto
  then have "takeWhile ?P b \<noteq> b" by (auto simp: takeWhile_eq_all_conv)
  then have lt: "length (takeWhile ?P b) < length b"
    using length_takeWhile_le[of ?P b] by (metis le_neq_implies_less takeWhile_eq_take take_all_iff order_refl)
  show 1: "np_argmax b < length b" using lt by (simp add: np_argmax_def m)
  show "b ! np_argmax b = Max (set b)"
    using nth_length_takeWhile[OF lt] by (simp add: np_argmax_def m)
  show "\<forall>j < np_argmax b. b ! j < Max (set b)"
  proof (intro allI impI)
    fix j assume j: "j < np_argmax b"
    then have jl: "j < length (takeWhile ?P b)" by (simp add: np_argmax_def m)
    then have "takeWhile ?P b ! j \<in> set (takeWhile ?P b)" by (rule nth_mem)
    then have "?P (takeWhile ?P b ! j)" by (rule set_takeWhileD[THEN conjunct2])
    moreover have "takeWhile ?P b ! j = b ! j" using jl by (rule takeWhile_nth)
    moreover have "b ! j \<le> Max (set b)" using j 1 by (intro Max_ge) auto
    ultimately show "b ! j < Max (set b)" by simp
  qed
qed

lemma koyak_loop_total:
  "0 < n \<Longrightarrow> length b = n \<Longrightarrow> length ov = n
   \<Longrightarrow> \<exists>res. koyak_loop A n b ov = Inr res \<and> length res = n"
proof (induction A n b ov rule: koyak_loop.induct)
  case (1 A n b ov)
  have ne: "b \<noteq> []" using 1(2,3) by auto
  then obtain m where m: "np_max b = Inr m" using np_max_nonempty by blast
  show ?case
  proof (cases "0 < m")
    case False
    then show ?thesis using m 1(3,4) by (subst koyak_loop.simps) simp
  next
    case True
    define r where "r = np_argmax b"
    define o1 where "o1 = ov[r := True]"
    define b1 where "b1 = b[r := 0]"
    define b2 where "b2 = map (\<lambda>j. if \<not> o1 ! j then b1 ! j - A ! r ! j else b1 ! j) [0..<n]"
    have "\<exists>res. koyak_loop A n b2 o1 = Inr res \<and> length res = n"
    proof (rule "1.IH"[OF m _ True r_def o1_def b1_def b2_def])
      show "\<not> (length b \<noteq> n \<or> length ov \<noteq> n)" using 1(3,4) by simp
      show "0 < n" by (rule 1(2))
      show "length b2 = n" by (simp add: b2_def)
      show "length o1 = n" using 1(4) by (simp add: o1_def)
    qed
    moreover have "koyak_loop A n b ov = koyak_loop A n b2 o1"
      unfolding b2_def b1_def o1_def r_def using m True 1(3,4)
      by (subst koyak_loop.simps) (simp add: Let_def)
    ultimately show ?thesis by simp
  qed
qed

lemma trackOutlier_total:
  assumes "A \<noteq> []" and "is_symmetric A" and "is_binary A"
  shows "\<exists>ov. trackOutlier A = Inr ov \<and> length ov = length A"
proof -
  have n: "0 < length A" using assms(1) by simp
  have "\<exists>res. koyak_loop A (length A) (map sum_list A) (replicate (length A) False) = Inr res
          \<and> length res = length A"
    using n by (intro koyak_loop_total) simp_all
  then show ?thesis using assms(2,3) by (simp add: trackOutlier_def Let_def)
qed

text \<open>
  Claim C6. For every symmetric binary \<open>n \<times> n\<close> matrix with at least one row,
  \<^verbatim>\<open>trackOutlier\<close> terminates without an exception and returns a boolean vector of
  length \<open>n\<close>. The result is a function of \<open>A\<close> alone; the index chosen by
  \<^verbatim>\<open>np.argmax\<close> is the lowest one that holds the maximum, here stated for the vector of
  row sums the loop starts from.
\<close>

theorem trackOutlier_returns:
  assumes "A \<noteq> []" and "is_symmetric A" and "is_binary A"
  shows "(\<exists>ov. trackOutlier A = Inr ov \<and> length ov = length A)
         \<and> np_argmax (map sum_list A) < length A
         \<and> map sum_list A ! np_argmax (map sum_list A) = Max (set (map sum_list A))
         \<and> (\<forall>j < np_argmax (map sum_list A).
               map sum_list A ! j < Max (set (map sum_list A)))"
proof -
  have 1: "\<exists>ov. trackOutlier A = Inr ov \<and> length ov = length A"
    using assms by (rule trackOutlier_total)
  have ne: "map sum_list A \<noteq> []" using assms(1) by simp
  show ?thesis using 1 np_argmax_props[OF ne] by simp
qed

theorem trackOutlier_returns_witness:
  "trackOutlier [[0,1,1],[1,0,0],[1,0,0]] = Inr [True, False, False]
   \<and> np_argmax (map sum_list [[0,1,1],[1,0,0],[1,0,0::int]]) = 0"
proof -
  have h: "[[0,1,1],[1,0,0],[1,0,0::int]] \<noteq> []" "is_symmetric [[0,1,1],[1,0,0],[1,0,0]]"
    "is_binary [[0,1,1],[1,0,0],[1,0,0]]" by code_simp+
  have e: "trackOutlier [[0,1,1],[1,0,0],[1,0,0]] = Inr [True, False, False]" by code_simp
  have a: "np_argmax (map sum_list [[0,1,1],[1,0,0],[1,0,0::int]]) = 0" by code_simp
  show ?thesis using trackOutlier_returns[OF h] e a by simp
qed

text \<open>
  On the matrix without rows both assertions pass and \<^verbatim>\<open>np.max\<close> of the empty vector
  of row sums raises ValueError: no vector is returned.
\<close>

theorem trackOutlier_empty_counterexample:
  "is_symmetric [] \<and> is_binary [] \<and> trackOutlier [] = Inl ValueError"
  by (simp add: trackOutlier_def is_symmetric_def is_binary_def koyak_loop.simps np_max_def)

section \<open>The moored/anchor filter\<close>

lemma frac_gt: "0 < n \<Longrightarrow> (0.7 < real c / real n) = (7 * n < 10 * c)"
proof -
  assume n: "0 < n"
  have "(0.7 < real c / real n) = (0.7 * real n < real c)" using n by (simp add: pos_less_divide_eq)
  also have "\<dots> = (real (7 * n) < real (10 * c))" by auto
  also have "\<dots> = (7 * n < 10 * c)" by (simp only: of_nat_less_iff)
  finally show ?thesis .
qed

lemma count_cong:
  "(\<And>r. r \<in> set rs \<Longrightarrow> f r = g r) \<Longrightarrow> count_nonzero (map f rs) = count_nonzero (map g rs)"
  by (simp add: count_nonzero_def cong: map_cong)

text \<open>
  Claim C1, as the code has it. For a block with at least one row the moored/anchor test
  holds exactly when the rows with the value 7 in the column the filter reads (\<open>NAV\<close>)
  are strictly more than 70 percent of the block, or the rows with the value 8 are: the
  two statuses are counted separately, and a block at exactly 70 percent passes. A block
  for which the test holds is removed. When column \<open>NAV\<close> holds what the last column of
  the block holds, the navigational status, these are the fractions of moored and of
  anchored messages.
\<close>

theorem moored_or_anchor_separate:
  assumes "NAV < ncols d" and "0 < nrows d"
  shows "moored_or_anchor d =
           Inr (7 * nrows d < 10 * count_nonzero (map (\<lambda>r. r ! NAV = 7) (rows d))
                \<or> 7 * nrows d < 10 * count_nonzero (map (\<lambda>r. r ! NAV = 8) (rows d)))
         \<and> (moored_or_anchor d = Inr True \<longrightarrow> moored_keep d = Inr False)
         \<and> ((\<forall>r\<in>set (rows d). r ! NAV = r ! 8) \<longrightarrow>
              moored_or_anchor d =
                Inr (7 * nrows d < 10 * count_nonzero (map (\<lambda>r. r ! 8 = 7) (rows d))
                     \<or> 7 * nrows d < 10 * count_nonzero (map (\<lambda>r. r ! 8 = 8) (rows d))))"
proof -
  have n: "real (nrows d) \<noteq> 0" using assms(2) by simp
  have c: "col NAV d = Inr (map (\<lambda>r. r ! NAV) (rows d))" using assms(1) by (simp add: col_def)
  have "moored_or_anchor d =
        Inr (0.7 < real (count_nonzero (map (\<lambda>r. r ! NAV = 7) (rows d))) / real (nrows d)
           \<or> 0.7 < real (count_nonzero (map (\<lambda>r. r ! NAV = 8) (rows d))) / real (nrows d))"
    using n by (simp add: moored_or_anchor_def c bind_exn_def py_div_def Let_def comp_def)
  then have 1: "moored_or_anchor d =
           Inr (7 * nrows d < 10 * count_nonzero (map (\<lambda>r. r ! NAV = 7) (rows d))
                \<or> 7 * nrows d < 10 * count_nonzero (map (\<lambda>r. r ! NAV = 8) (rows d)))"
    using assms(2) by (simp only: frac_gt)
  have 2: "moored_or_anchor d = Inr True \<longrightarrow> moored_keep d = Inr False"
    by (simp add: moored_keep_def bind_exn_def)
  have 3: "(\<forall>r\<in>set (rows d). r ! NAV = r ! 8) \<longrightarrow>
              moored_or_anchor d =
                Inr (7 * nrows d < 10 * count_nonzero (map (\<lambda>r. r ! 8 = 7) (rows d))
                     \<or> 7 * nrows d < 10 * count_nonzero (map (\<lambda>r. r ! 8 = 8) (rows d)))"
  proof
    assume a: "\<forall>r\<in>set (rows d). r ! NAV = r ! 8"
    have "count_nonzero (map (\<lambda>r. r ! NAV = 7) (rows d)) = count_nonzero (map (\<lambda>r. r ! 8 = 7) (rows d))"
      "count_nonzero (map (\<lambda>r. r ! NAV = 8) (rows d)) = count_nonzero (map (\<lambda>r. r ! 8 = 8) (rows d))"
      using a by (auto intro!: count_cong)
    then show "moored_or_anchor d =
                Inr (7 * nrows d < 10 * count_nonzero (map (\<lambda>r. r ! 8 = 7) (rows d))
                     \<or> 7 * nrows d < 10 * count_nonzero (map (\<lambda>r. r ! 8 = 8) (rows d)))"
      using 1 by simp
  qed
  show ?thesis using 1 2 3 by blast
qed

theorem moored_or_anchor_separate_witness:
  "moored_or_anchor seventy_block = Inr False"
proof -
  have h: "NAV < ncols seventy_block" "0 < nrows seventy_block"
    by (simp_all add: seventy_block_def NAV_def nrows_def)
  have a: "\<forall>r\<in>set (rows seventy_block). r ! NAV = r ! 8"
    by (simp add: seventy_block_def NAV_def)
  show ?thesis
    using moored_or_anchor_separate[OF h] a
    by (simp add: seventy_block_def NAV_def nrows_def count_nonzero_def)
qed

text \<open>
  A block whose messages are all moored or at anchor, half and half: the fraction with
  status 7 or 8 is 100 percent, yet neither count alone exceeds 70 percent and the block
  is kept.
\<close>

theorem moored_counterexample:
  "moored_or_anchor mixed_block = Inr False \<and> moored_keep mixed_block = Inr True
   \<and> spec_moored_exceeds NAV mixed_block \<and> spec_moored_exceeds 8 mixed_block"
  by code_simp

text \<open>
  Column \<open>NAV\<close> is column 5. In a row returned by \<^verbatim>\<open>interpolate_\<close> that is the rate of
  turn, the status is the last entry: a block of 144 moored messages with rate of turn 0
  passes the test.
\<close>

lemma moored_column:
  "moored_or_anchor moored_block = Inr False \<and> moored_keep moored_block = Inr True
   \<and> spec_moored_exceeds 8 moored_block"
  by code_simp

section \<open>Properties of the interpolator\<close>

lemma before_after_at_message:
  assumes "sorted ts" and "Suc i < length ts" and "ts ! i < ts ! Suc i"
  shows "before_p (ts ! i) ts = [0..<Suc i]" and "after_p (ts ! i) ts = [Suc i..<length ts]"
proof -
  have lo: "\<And>j. j < Suc i \<Longrightarrow> ts ! j \<le> ts ! i"
    using assms(1,2) by (simp add: sorted_iff_nth_mono)
  have hi: "\<And>j. Suc i \<le> j \<Longrightarrow> j < length ts \<Longrightarrow> ts ! i < ts ! j"
  proof -
    fix j assume "Suc i \<le> j" "j < length ts"
    then have "ts ! Suc i \<le> ts ! j" using assms(1) by (simp add: sorted_iff_nth_mono)
    then show "ts ! i < ts ! j" using assms(3) by simp
  qed
  show "before_p (ts ! i) ts = [0..<Suc i]"
    unfolding before_p_def using assms(2) lo hi
    by (intro filter_upt_prefix) (auto simp: not_le)
  show "after_p (ts ! i) ts = [Suc i..<length ts]"
    unfolding after_p_def using assms(2) lo hi
    by (intro filter_upt_suffix) (auto simp: not_less)
qed


lemma lin_interp_zero:
  assumes "apos < nrows track" "bpos < nrows track" "c < ncols track" "dt_full \<noteq> 0"
  shows "lin_interp track apos bpos c 0 dt_full = Inr (rows track ! bpos ! c)"
  using assms by (simp add: lin_interp_def cell_nat py_div_def)


lemma interp_try_inv_fails:
  assumes "\<And>a b c d. isl (geod_inv g a b c d)"
  shows "isl (interp_try env g track apos bpos dti dtf)"
  unfolding interp_try_def
  by (intro isl_bindI isl_bind1 assms)

lemma interp_try_fwd_fails:
  assumes "\<And>a b c d. isl (geod_fwd g a b c d)"
  shows "isl (interp_try env g track apos bpos dti dtf)"
  unfolding interp_try_def
  apply (intro isl_bindI)
  subgoal for lon_b lat_b lon_a lat_a x
    apply (cases x)
    apply simp
    apply (rule isl_bindI)
    apply (rule isl_bind1)
    apply (rule assms)
    done
  done

lemma interp_try_name_fails:
  assumes "HEADING env = None \<or> ROT env = None \<or> NAV_STT env = None"
  shows "isl (interp_try env g track apos bpos dti dtf)"
  using assms unfolding interp_try_def
  by (auto simp: bind_exn_def lookup_def split: sum.splits prod.splits)

lemma interpolate_None_if_try_fails:
  assumes "\<And>apos bpos dti dtf. isl (interp_try env g track apos bpos dti dtf)"
    and "TIMESTAMP < ncols track"
  shows "interpolate' env g t track = Inr None"
proof -
  obtain ts where ts: "col TIMESTAMP track = Inr ts" using assms(2) by (simp add: col_def)
  show ?thesis
    by (simp add: interpolate'_def ts Let_def case_isl[OF assms(1)])
qed

lemma interpolate_returns:
  assumes "MMSI < ncols track"
  shows "\<exists>r. interpolate' env g t track = Inr r"
proof -
  have tsc: "TIMESTAMP < ncols track" using assms by (simp add: MMSI_def TIMESTAMP_def)
  then obtain ts where ts: "col TIMESTAMP track = Inr ts" by (simp add: col_def)
  have len: "length ts = nrows track" using ts by (rule col_length)
  show ?thesis
  proof (cases "before_p t ts \<noteq> []")
    case False
    then show ?thesis by (simp add: interpolate'_def ts Let_def)
  next
    case True
    then have "length ts \<noteq> 0" by (auto simp: before_p_def)
    then have "0 < nrows track" using len by simp
    then have m: "cell track 0 MMSI = Inr (rows track ! 0 ! MMSI)" using assms by (rule cell_0)
    show ?thesis
      by (simp add: interpolate'_def ts Let_def m split: sum.split prod.split)
  qed
qed

text \<open>
  Claim C5. On a track that has the module's eight columns, \<^verbatim>\<open>interpolate_\<close> never
  raises: it returns a row or \<^verbatim>\<open>None\<close>. Whenever the \<^verbatim>\<open>try\<close> block raises, whatever the
  exception, the result is \<^verbatim>\<open>None\<close>; in particular when \<^verbatim>\<open>geod.inv\<close> or \<^verbatim>\<open>geod.fwd\<close>
  fails, and when one of the names \<^verbatim>\<open>HEADING\<close>, \<^verbatim>\<open>ROT\<close>, \<^verbatim>\<open>NAV_STT\<close> is unbound.
\<close>

theorem interpolate_no_exception:
  assumes "MMSI < ncols track"
  shows "(\<exists>r. interpolate' env g t track = Inr r)
       \<and> ((\<forall>a b c d. isl (geod_inv g a b c d)) \<longrightarrow> interpolate' env g t track = Inr None)
       \<and> ((\<forall>a b c d. isl (geod_fwd g a b c d)) \<longrightarrow> interpolate' env g t track = Inr None)
       \<and> (HEADING env = None \<or> ROT env = None \<or> NAV_STT env = None
            \<longrightarrow> interpolate' env g t track = Inr None)
       \<and> (\<forall>ts e. col TIMESTAMP track = Inr ts \<and> before_p t ts \<noteq> [] \<and> after_p t ts \<noteq> []
            \<and> interp_try env g track (hd (after_p t ts)) (last (before_p t ts))
                 (t - ts ! last (before_p t ts))
                 (ts ! hd (after_p t ts) - ts ! last (before_p t ts)) = Inl e
            \<longrightarrow> interpolate' env g t track = Inr None)"
proof -
  have tsc: "TIMESTAMP < ncols track" using assms by (simp add: MMSI_def TIMESTAMP_def)
  have 1: "\<exists>r. interpolate' env g t track = Inr r" using assms by (rule interpolate_returns)
  have 2: "(\<forall>a b c d. isl (geod_inv g a b c d)) \<longrightarrow> interpolate' env g t track = Inr None"
    using interpolate_None_if_try_fails[OF interp_try_inv_fails tsc] by blast
  have 3: "(\<forall>a b c d. isl (geod_fwd g a b c d)) \<longrightarrow> interpolate' env g t track = Inr None"
    using interpolate_None_if_try_fails[OF interp_try_fwd_fails tsc] by blast
  have 4: "HEADING env = None \<or> ROT env = None \<or> NAV_STT env = None
            \<longrightarrow> interpolate' env g t track = Inr None"
    using interpolate_None_if_try_fails[OF interp_try_name_fails tsc] by blast
  have 5: "\<forall>ts e. col TIMESTAMP track = Inr ts \<and> before_p t ts \<noteq> [] \<and> after_p t ts \<noteq> []
            \<and> interp_try env g track (hd (after_p t ts)) (last (before_p t ts))
                 (t - ts ! last (before_p t ts))
                 (ts ! hd (after_p t ts) - ts ! last (before_p t ts)) = Inl e
            \<longrightarrow> interpolate' env g t track = Inr None"
    by (auto simp: interpolate'_def Let_def)
  show ?thesis using 1 2 3 4 5 by blast
qed

theorem interpolate_no_exception_witness:
  "MMSI < ncols track2 \<and> interpolate' names_sample geod_failing 1800 track2 = Inr None
   \<and> interpolate' names_unbound geod_meridian 1800 track2 = Inr None"
proof -
  have h: "MMSI < ncols track2" by (simp add: MMSI_def track2_def)
  have f: "\<forall>a b c d. isl (geod_inv geod_failing a b c d)" by (simp add: geod_failing_def)
  have u: "HEADING names_unbound = None" by (simp add: names_unbound_def)
  show ?thesis
    using interpolate_no_exception[OF h, of names_sample geod_failing 1800]
      interpolate_no_exception[OF h, of names_unbound geod_meridian 1800] h f u
    by blast
qed

lemma interpolate_unbound:
  "TIMESTAMP < ncols track \<Longrightarrow> interpolate' names_unbound g t track = Inr None"
  by (rule interpolate_None_if_try_fails[OF interp_try_name_fails])
     (simp_all add: names_unbound_def)

lemma track2_ts: "col TIMESTAMP track2 = Inr [0, 3600]"
  by (simp add: col_def track2_def TIMESTAMP_def)





text \<open>
  Were the three names bound to columns of the track, and the geodesic calls successful,
  the call at the timestamp of message \<open>i\<close> would return the values of message \<open>i\<close>, with
  the position that \<^verbatim>\<open>geod.fwd\<close> gives for a step of length 0: the arithmetic of the
  \<^verbatim>\<open>try\<close> block is exact at \<open>before\<close>.
\<close>

lemma interpolate_at_message:
  assumes ts: "col TIMESTAMP track = Inr ts" and sorted: "sorted ts"
    and i: "Suc i < length ts" and lt: "ts ! i < ts ! Suc i"
    and gap: "ts ! Suc i - ts ! i \<le> 2 * 3600"
    and cols: "MMSI < ncols track" "h < ncols track" "r < ncols track" "nv < ncols track"
    and env: "HEADING env = Some h" "ROT env = Some r" "NAV_STT env = Some nv"
    and inv: "geod_inv g (rows track ! i ! LON) (rows track ! i ! LAT)
                (rows track ! Suc i ! LON) (rows track ! Suc i ! LAT) = Inr (az, baz, dst)"
    and fwd: "geod_fwd g (rows track ! i ! LON) (rows track ! i ! LAT) az 0 = Inr (lon0, lat0, baz0)"
  shows "interpolate' env g (ts ! i) track =
           Inr (Some [lat0, lon0, rows track ! i ! SOG, rows track ! i ! COG,
                      rows track ! i ! h, rows track ! i ! r, ts ! i,
                      rows track ! 0 ! MMSI, rows track ! i ! nv])"
proof -
  have len: "length ts = nrows track" using ts by (rule col_length)
  have bp: "before_p (ts ! i) ts = [0..<Suc i]" and ap: "after_p (ts ! i) ts = [Suc i..<length ts]"
    using before_after_at_message[OF sorted i lt] by auto
  have hd: "hd (after_p (ts ! i) ts) = Suc i" using i by (simp add: ap upt_conv_Cons)
  have ls: "last (before_p (ts ! i) ts) = i" by (simp add: bp)
  have ne1: "before_p (ts ! i) ts \<noteq> []" unfolding bp by simp
  have ne2: "after_p (ts ! i) ts \<noteq> []" unfolding ap using i by auto
  note ne = ne1 ne2
  have ir: "i < nrows track" "Suc i < nrows track" "0 < nrows track" using i len by auto
  have c8: "LON < ncols track" "LAT < ncols track" "SOG < ncols track" "COG < ncols track"
    using cols(1) by (simp_all add: MMSI_def LON_def LAT_def SOG_def COG_def)
  define dtf where "dtf = ts ! Suc i - ts ! i"
  have dtf: "dtf \<noteq> 0" "0 < dtf" "\<not> 2 * 3600 < \<bar>dtf\<bar>" using lt gap by (auto simp: dtf_def)
  have li: "\<And>c. c < ncols track \<Longrightarrow> lin_interp track (Suc i) i c 0 dtf = Inr (rows track ! i ! c)"
    using ir dtf(1) by (intro lin_interp_zero) auto
  have tr: "interp_try env g track (Suc i) i 0 dtf =
        Inr (lat0, lon0, rows track ! i ! SOG, rows track ! i ! COG, rows track ! i ! h,
             rows track ! i ! r, rows track ! i ! nv)"
    using dtf(1,2) ir
    by (simp add: interp_try_def cell_nat c8 cols inv fwd li env lookup_def py_div_def
        del: of_nat_Suc)
  show ?thesis
    using ne dtf(3) tr ir(3) cols(1)
    by (simp add: interpolate'_def ts Let_def hd ls dtf_def[symmetric] cell_0)
qed

lemma interpolate_at_message_track2:
  "interpolate' names_sample geod_meridian 0 track2 = Inr (Some [10, 20, 5, 90, 91, 2, 0, 1, 0])"
proof -
  have inv: "geod_inv geod_meridian (rows track2 ! 0 ! LON) (rows track2 ! 0 ! LAT)
                (rows track2 ! Suc 0 ! LON) (rows track2 ! Suc 0 ! LAT) = Inr (0, 180, 1)"
    by (simp add: geod_meridian_def track2_def LON_def LAT_def)
  have fwd: "geod_fwd geod_meridian (rows track2 ! 0 ! LON) (rows track2 ! 0 ! LAT) 0 0 = Inr (20, 10, 180)"
    by (simp add: geod_meridian_def track2_def LON_def LAT_def)
  have "interpolate' names_sample geod_meridian ([0, 3600] ! 0) track2 =
           Inr (Some [10, 20, rows track2 ! 0 ! SOG, rows track2 ! 0 ! COG,
                      rows track2 ! 0 ! 4, rows track2 ! 0 ! 8, [0, 3600] ! 0,
                      rows track2 ! 0 ! MMSI, rows track2 ! 0 ! 5])"
    by (rule interpolate_at_message[OF track2_ts _ _ _ _ _ _ _ _ _ _ _ inv fwd])
       (simp_all add: track2_def MMSI_def names_sample_def)
  then show ?thesis by (simp add: track2_def SOG_def COG_def MMSI_def)
qed

section \<open>Properties of detectOutlier\<close>

text \<open>
  Claim C10. When every message of the track reports a speed above \<open>speed_max\<close>,
  \<^verbatim>\<open>detectOutlier\<close> returns the all-true report vector together with \<^verbatim>\<open>None\<close>. Reading
  \<^verbatim>\<open>.all()\<close> from that second component raises; the anomaly-removal loop tests the
  first component first and pops the voyage without touching the second.
\<close>

theorem detectOutlier_all_reported:
  assumes "3 < ncols track" and "list_all (\<lambda>r. speed_max < r ! 3) (rows track)"
  shows "detectOutlier g track speed_max = Inr (replicate (nrows track) True, None)
       \<and> bind_exn (detectOutlier g track speed_max) (\<lambda>(o_report, o_calcul). opt_all o_calcul)
           = Inl AttributeError
       \<and> (speed_max = 30 \<longrightarrow> anomaly_try g v track = Inr None)"
proof -
  have c: "col 3 track = Inr (map (\<lambda>r. r ! 3) (rows track))" using assms(1) by (simp add: col_def)
  have m: "map (\<lambda>s. speed_max < s) (map (\<lambda>r. r ! 3) (rows track)) = replicate (nrows track) True"
    using assms(2)
    by (auto simp: list_all_iff nrows_def map_replicate_const[symmetric] simp del: map_replicate_const)
  have 1: "detectOutlier g track speed_max = Inr (replicate (nrows track) True, None)"
    unfolding detectOutlier_def c bind_exn_simps Let_def m by (simp add: list_all_iff)
  have 2: "speed_max = 30 \<longrightarrow> anomaly_try g v track = Inr None"
  proof
    assume "speed_max = 30"
    then have "detectOutlier g track 30 = Inr (replicate (nrows track) True, None)" using 1 by simp
    then show "anomaly_try g v track = Inr None" by (simp add: anomaly_try_def list_all_iff)
  qed
  have 3: "bind_exn (detectOutlier g track speed_max) (\<lambda>(o_report, o_calcul). opt_all o_calcul)
           = Inl AttributeError"
    by (simp add: 1 opt_all_def)
  show ?thesis using 1 2 3 by simp
qed

theorem detectOutlier_all_reported_witness:
  "detectOutlier geod_meridian fast_track 30 = Inr ([True, True], None)"
  using detectOutlier_all_reported[of fast_track 30 geod_meridian]
  by (simp add: fast_track_def nrows_def)

subsection \<open>The pairwise matrix\<close>

lemma is_matrix_set_entry: "is_matrix n A \<Longrightarrow> is_matrix n (set_entry A a b x)"
proof (cases "a < length A")
  case True
  assume "is_matrix n A"
  then show ?thesis using True by (auto simp: is_matrix_def set_entry_def nth_list_update)
next
  case False
  assume "is_matrix n A"
  then show ?thesis using False by (simp add: is_matrix_def set_entry_def)
qed

lemma set_entry_nth:
  assumes "is_matrix n A" "a < n" "b < n" "r < n" "c < n"
  shows "set_entry A a b x ! r ! c = (if r = a \<and> c = b then x else A ! r ! c)"
  using assms by (auto simp: is_matrix_def set_entry_def nth_list_update)

lemma fold_set_entry:
  assumes "is_matrix n A" and "\<forall>k\<in>set ks. f k < n \<and> h k < n"
  shows "is_matrix n (fold (\<lambda>k M. set_entry M (f k) (h k) 1) ks A)
       \<and> (\<forall>r<n. \<forall>c<n. fold (\<lambda>k M. set_entry M (f k) (h k) 1) ks A ! r ! c
              = (if \<exists>k\<in>set ks. r = f k \<and> c = h k then 1 else A ! r ! c))"
  using assms
proof (induction ks arbitrary: A)
  case Nil
  then show ?case by simp
next
  case (Cons k ks)
  have m: "is_matrix n (set_entry A (f k) (h k) 1)" using Cons.prems(1) by (rule is_matrix_set_entry)
  have b: "\<forall>k\<in>set ks. f k < n \<and> h k < n" using Cons.prems(2) by simp
  have kb: "f k < n" "h k < n" using Cons.prems(2) by simp_all
  note IH = Cons.IH[OF m b]
  show ?case
  proof (intro conjI allI impI)
    show "is_matrix n (fold (\<lambda>k M. set_entry M (f k) (h k) 1) (k # ks) A)" using IH by simp
  next
    fix r c assume rc: "r < n" "c < n"
    have "fold (\<lambda>k M. set_entry M (f k) (h k) 1) (k # ks) A ! r ! c
        = (if \<exists>k\<in>set ks. r = f k \<and> c = h k then 1 else set_entry A (f k) (h k) 1 ! r ! c)"
      using IH rc by simp
    also have "set_entry A (f k) (h k) 1 ! r ! c = (if r = f k \<and> c = h k then 1 else A ! r ! c)"
      using Cons.prems(1) kb rc by (rule set_entry_nth)
    finally show "fold (\<lambda>k M. set_entry M (f k) (h k) 1) (k # ks) A ! r ! c
        = (if \<exists>k\<in>set (k # ks). r = f k \<and> c = h k then 1 else A ! r ! c)"
      by auto
  qed
qed

lemma sequence_exn_total:
  "\<forall>m\<in>set ms. \<not> isl m \<Longrightarrow> sequence_exn ms = Inr (map projr ms)"
proof (induction ms)
  case Nil
  then show ?case by simp
next
  case (Cons m ms)
  then obtain x where "m = Inr x" by (cases m) auto
  then show ?case using Cons by simp
qed


lemma diag_step_entries:
  assumes tot: "\<forall>a b c d. \<not> isl (geod_inv g a b c d)"
    and A: "is_matrix N A" and N: "N = length track" and i: "i \<le> N"
  shows "\<exists>A'. diag_step g speed_max track i A = Inr A' \<and> is_matrix N A'
           \<and> (\<forall>r<N. \<forall>c<N. A' ! r ! c = (if hit g speed_max track i r c then 1 else A ! r ! c))"
proof -
  define xs where "xs = py_take (int N - int i) track"
  define ys where "ys = drop i track"
  have "nat (int N - int i) = N - i" by linarith
  then have xs: "xs = take (N - i) track" using i by (simp add: xs_def py_take_def)
  have lx: "length xs = N - i" using N by (simp add: xs)
  have ly: "length ys = N - i" using N by (simp add: ys_def)
  have xk: "\<And>k. k < N - i \<Longrightarrow> xs ! k = track ! k" by (simp add: xs)
  have yk: "\<And>k. k < N - i \<Longrightarrow> ys ! k = track ! (k + i)"
    using N by (simp add: ys_def add.commute)
  define res where "res = map projr (map2 (\<lambda>x y. geod_inv g (x ! 2) (x ! 1) (y ! 2) (y ! 1)) xs ys)"
  have gv: "geod_inv_vec g xs ys = Inr res"
    unfolding geod_inv_vec_def res_def using lx ly tot
    by (simp add: sequence_exn_total split_def)
  have lres: "length res = N - i" using lx ly by (simp add: res_def)
  define d where "d = map (\<lambda>(az12, az21, dist). dist) res"
  define delta_t where "delta_t = map2 (\<lambda>y x. y ! 0 - x ! 0) ys xs"
  define cond where
    "cond = map2 (\<lambda>dt dd. 2 < dt \<and> speed_max * 0.514444 < dd / dt) delta_t d"
  have lc: "length cond = N - i" using lx ly lres by (simp add: cond_def delta_t_def d_def)
  have ck: "\<And>k. k < N - i \<Longrightarrow> cond ! k = speed_anomalous g speed_max (track ! k) (track ! (k + i))"
  proof -
    fix k assume k: "k < N - i"
    obtain az baz dd where gi: "geod_inv g (track ! k ! 2) (track ! k ! 1)
        (track ! (k + i) ! 2) (track ! (k + i) ! 1) = Inr (az, baz, dd)"
      using tot by (metis sum.collapse(2) prod_cases3)
    have "res ! k = (az, baz, dd)" using k lx ly gi by (simp add: res_def xk yk)
    then have dk: "d ! k = dd" using k lres by (simp add: d_def)
    have tk: "delta_t ! k = track ! (k + i) ! 0 - track ! k ! 0"
      using k lx ly by (simp add: delta_t_def xk yk)
    have "cond ! k = (2 < delta_t ! k \<and> speed_max * 0.514444 < d ! k / delta_t ! k)"
      using k lx ly lres by (simp add: cond_def delta_t_def d_def)
    then show "cond ! k = speed_anomalous g speed_max (track ! k) (track ! (k + i))"
      using gi by (simp add: dk tk speed_anomalous_def)
  qed
  define idx where "idx = filter (\<lambda>k. cond ! k) [0..<length cond]"
  have mem: "\<And>k. k \<in> set idx \<longleftrightarrow>
      k < N - i \<and> speed_anomalous g speed_max (track ! k) (track ! (k + i))"
  proof -
    fix k
    have "k \<in> set idx \<longleftrightarrow> k < N - i \<and> cond ! k" by (simp add: idx_def lc)
    then show "k \<in> set idx \<longleftrightarrow>
      k < N - i \<and> speed_anomalous g speed_max (track ! k) (track ! (k + i))"
      using ck[of k] by blast
  qed
  define A1 where "A1 = fold (\<lambda>k M. set_entry M k (k + i) 1) idx A"
  define A2 where "A2 = fold (\<lambda>k M. set_entry M (k + i) k 1) idx A1"
  have st: "diag_step g speed_max track i A = Inr A2"
    unfolding diag_step_def Let_def N[symmetric] xs_def[symmetric] ys_def[symmetric] gv bind_exn_simps
      d_def[symmetric] delta_t_def[symmetric] cond_def[symmetric] idx_def[symmetric]
      A1_def[symmetric] A2_def[symmetric] ..
  have b1: "\<forall>k\<in>set idx. k < N \<and> k + i < N"
  proof
    fix k assume "k \<in> set idx"
    then have "k < N - i" using mem by blast
    then show "k < N \<and> k + i < N" by linarith
  qed
  then have b2: "\<forall>k\<in>set idx. k + i < N \<and> k < N" by blast
  have f1: "is_matrix N A1 \<and> (\<forall>r<N. \<forall>c<N. A1 ! r ! c
              = (if \<exists>k\<in>set idx. r = k \<and> c = k + i then 1 else A ! r ! c))"
    unfolding A1_def using A b1 by (rule fold_set_entry)
  have f2: "is_matrix N A2 \<and> (\<forall>r<N. \<forall>c<N. A2 ! r ! c
              = (if \<exists>k\<in>set idx. r = k + i \<and> c = k then 1 else A1 ! r ! c))"
    unfolding A2_def using f1[THEN conjunct1] b2 by (rule fold_set_entry)
  have e: "\<forall>r<N. \<forall>c<N. A2 ! r ! c = (if hit g speed_max track i r c then 1 else A ! r ! c)"
  proof (intro allI impI)
    fix r c assume rc: "r < N" "c < N"
    have "(\<exists>k\<in>set idx. r = k \<and> c = k + i) \<longleftrightarrow> (r \<in> set idx \<and> c = r + i)" by blast
    also have "\<dots> \<longleftrightarrow> (r < N - i \<and> speed_anomalous g speed_max (track ! r) (track ! (r + i))
                         \<and> c = r + i)"
      using mem[of r] by blast
    also have "\<dots> \<longleftrightarrow> (c = r + i \<and> speed_anomalous g speed_max (track ! r) (track ! c))"
      using rc by (cases "c = r + i") (simp_all, linarith)
    finally have h1: "(\<exists>k\<in>set idx. r = k \<and> c = k + i)
        \<longleftrightarrow> (c = r + i \<and> speed_anomalous g speed_max (track ! r) (track ! c))" .
    have "(\<exists>k\<in>set idx. r = k + i \<and> c = k) \<longleftrightarrow> (c \<in> set idx \<and> r = c + i)" by blast
    also have "\<dots> \<longleftrightarrow> (c < N - i \<and> speed_anomalous g speed_max (track ! c) (track ! (c + i))
                         \<and> r = c + i)"
      using mem[of c] by blast
    also have "\<dots> \<longleftrightarrow> (r = c + i \<and> speed_anomalous g speed_max (track ! c) (track ! r))"
      using rc by (cases "r = c + i") (simp_all, linarith)
    finally have h2: "(\<exists>k\<in>set idx. r = k + i \<and> c = k)
        \<longleftrightarrow> (r = c + i \<and> speed_anomalous g speed_max (track ! c) (track ! r))" .
    have a2: "A2 ! r ! c = (if \<exists>k\<in>set idx. r = k + i \<and> c = k then 1 else A1 ! r ! c)"
      using f2 rc by blast
    have a1: "A1 ! r ! c = (if \<exists>k\<in>set idx. r = k \<and> c = k + i then 1 else A ! r ! c)"
      using f1 rc by blast
    show "A2 ! r ! c = (if hit g speed_max track i r c then 1 else A ! r ! c)"
      unfolding a2 a1 h1 h2 hit_def by auto
  qed
  show ?thesis using st f2 e by blast
qed


lemma diag_loop_entries:
  assumes tot: "\<forall>a b c d. \<not> isl (geod_inv g a b c d)"
    and N: "N = length track"
  shows "is_matrix N A \<Longrightarrow> \<forall>i\<in>set ds. i \<le> N \<Longrightarrow>
         \<exists>A'. diag_loop g speed_max track ds A = Inr A' \<and> is_matrix N A'
           \<and> (\<forall>r<N. \<forall>c<N. A' ! r ! c =
                 (if \<exists>i\<in>set ds. hit g speed_max track i r c then 1 else A ! r ! c))"
proof (induction ds arbitrary: A)
  case Nil
  then show ?case by simp
next
  case (Cons i ds)
  have i: "i \<le> N" using Cons.prems(2) by simp
  obtain A1 where A1: "diag_step g speed_max track i A = Inr A1" "is_matrix N A1"
    "\<forall>r<N. \<forall>c<N. A1 ! r ! c = (if hit g speed_max track i r c then 1 else A ! r ! c)"
    using diag_step_entries[OF tot Cons.prems(1) N i] by blast
  have ds: "\<forall>i\<in>set ds. i \<le> N" using Cons.prems(2) by simp
  obtain A' where A': "diag_loop g speed_max track ds A1 = Inr A'" "is_matrix N A'"
    "\<forall>r<N. \<forall>c<N. A' ! r ! c =
        (if \<exists>i\<in>set ds. hit g speed_max track i r c then 1 else A1 ! r ! c)"
    using Cons.IH[OF A1(2) ds] by blast
  have "\<forall>r<N. \<forall>c<N. A' ! r ! c =
      (if \<exists>j\<in>set (i # ds). hit g speed_max track j r c then 1 else A ! r ! c)"
  proof (intro allI impI)
    fix r c assume rc: "r < N" "c < N"
    have a: "A' ! r ! c = (if \<exists>i\<in>set ds. hit g speed_max track i r c then 1 else A1 ! r ! c)"
      using A'(3) rc by blast
    have b: "A1 ! r ! c = (if hit g speed_max track i r c then 1 else A ! r ! c)"
      using A1(3) rc by blast
    show "A' ! r ! c =
      (if \<exists>j\<in>set (i # ds). hit g speed_max track j r c then 1 else A ! r ! c)"
      unfolding a b by auto
  qed
  then show ?case using A1(1) A'(1,2) by simp
qed

lemma band_iff:
  "(\<exists>i\<in>set [1..<5]. hit g speed_max track i r c) \<longleftrightarrow>
     ((r < c \<and> c - r \<le> 4 \<and> speed_anomalous g speed_max (track ! r) (track ! c))
      \<or> (c < r \<and> r - c \<le> 4 \<and> speed_anomalous g speed_max (track ! c) (track ! r)))"
proof
  assume "\<exists>i\<in>set [1..<5]. hit g speed_max track i r c"
  then obtain i where i: "1 \<le> i" "i < 5" and h: "hit g speed_max track i r c" by auto
  from h show "(r < c \<and> c - r \<le> 4 \<and> speed_anomalous g speed_max (track ! r) (track ! c))
      \<or> (c < r \<and> r - c \<le> 4 \<and> speed_anomalous g speed_max (track ! c) (track ! r))"
    unfolding hit_def using i by auto
next
  assume a: "(r < c \<and> c - r \<le> 4 \<and> speed_anomalous g speed_max (track ! r) (track ! c))
      \<or> (c < r \<and> r - c \<le> 4 \<and> speed_anomalous g speed_max (track ! c) (track ! r))"
  then show "\<exists>i\<in>set [1..<5]. hit g speed_max track i r c"
  proof
    assume b: "r < c \<and> c - r \<le> 4 \<and> speed_anomalous g speed_max (track ! r) (track ! c)"
    then have "c - r \<in> set [1..<5]" by auto
    moreover have "hit g speed_max track (c - r) r c" using b by (simp add: hit_def)
    ultimately show ?thesis by blast
  next
    assume b: "c < r \<and> r - c \<le> 4 \<and> speed_anomalous g speed_max (track ! c) (track ! r)"
    then have "r - c \<in> set [1..<5]" by auto
    moreover have "hit g speed_max track (r - c) r c" using b by (simp add: hit_def)
    ultimately show ?thesis by blast
  qed
qed

lemma is_matrix_zeros: "is_matrix n (replicate n (replicate n 0))"
  by (simp add: is_matrix_def)

lemma is_matrix_banded: "is_matrix (length track) (spec_banded_matrix g speed_max track)"
  by (simp add: is_matrix_def spec_banded_matrix_def)

lemma matrix_eqI:
  assumes "is_matrix n A" "is_matrix n B" "\<forall>r<n. \<forall>c<n. A ! r ! c = B ! r ! c"
  shows "A = B"
proof (rule nth_equalityI)
  show "length A = length B" using assms(1,2) by (simp add: is_matrix_def)
next
  fix r assume "r < length A"
  then have r: "r < n" using assms(1) by (simp add: is_matrix_def)
  show "A ! r = B ! r"
  proof (rule nth_equalityI)
    show "length (A ! r) = length (B ! r)" using assms(1,2) r by (simp add: is_matrix_def)
  next
    fix c assume "c < length (A ! r)"
    then have "c < n" using assms(1) r by (simp add: is_matrix_def)
    then show "A ! r ! c = B ! r ! c" using assms(3) r by blast
  qed
qed

lemma diag_loop_banded:
  assumes tot: "\<forall>a b c d. \<not> isl (geod_inv g a b c d)" and N: "4 \<le> length track"
  shows "diag_loop g speed_max track [1..<5]
           (replicate (length track) (replicate (length track) 0))
         = Inr (spec_banded_matrix g speed_max track)"
proof -
  let ?N = "length track"
  have ds: "\<forall>i\<in>set [1..<5]. i \<le> ?N" using N by auto
  obtain A' where A': "diag_loop g speed_max track [1..<5] (replicate ?N (replicate ?N 0)) = Inr A'"
    "is_matrix ?N A'"
    "\<forall>r<?N. \<forall>c<?N. A' ! r ! c =
        (if \<exists>i\<in>set [1..<5]. hit g speed_max track i r c then 1
         else replicate ?N (replicate ?N 0) ! r ! c)"
    using diag_loop_entries[OF tot refl is_matrix_zeros ds] by blast
  have "\<forall>r<?N. \<forall>c<?N. A' ! r ! c = spec_banded_matrix g speed_max track ! r ! c"
  proof (intro allI impI)
    fix r c assume rc: "r < ?N" "c < ?N"
    have "A' ! r ! c = (if \<exists>i\<in>set [1..<5]. hit g speed_max track i r c then 1 else 0)"
      using A'(3) rc by simp
    then show "A' ! r ! c = spec_banded_matrix g speed_max track ! r ! c"
      unfolding band_iff using rc by (simp add: spec_banded_matrix_def)
  qed
  then have "A' = spec_banded_matrix g speed_max track"
    using A'(2) is_matrix_banded by (intro matrix_eqI[of ?N]) auto
  then show ?thesis using A'(1) by simp
qed


lemma banded_nth:
  "r < length track \<Longrightarrow> c < length track \<Longrightarrow>
   spec_banded_matrix g speed_max track ! r ! c =
     (if (r < c \<and> c - r \<le> 4 \<and> speed_anomalous g speed_max (track ! r) (track ! c))
       \<or> (c < r \<and> r - c \<le> 4 \<and> speed_anomalous g speed_max (track ! c) (track ! r))
      then 1 else 0)"
  by (simp add: spec_banded_matrix_def)

lemma banded_symmetric: "is_symmetric (spec_banded_matrix g speed_max track)"
proof -
  have l: "length (spec_banded_matrix g speed_max track) = length track"
    by (simp add: spec_banded_matrix_def)
  show ?thesis
    unfolding is_symmetric_def l list_all_iff
    by (auto simp: banded_nth)
qed

lemma banded_binary: "is_binary (spec_banded_matrix g speed_max track)"
  by (auto simp: is_binary_def spec_banded_matrix_def list_all_iff)

lemma report_filter:
  "map snd (filter (\<lambda>(ob, r). \<not> ob) (zip (map (\<lambda>s. speed_max < s) (map (\<lambda>r. r ! 3) rs)) rs))
   = filter (\<lambda>r. \<not> speed_max < r ! 3) rs"
  by (induction rs) simp_all

text \<open>
  With at least four messages left after the reported-speed filter and a geodesic
  library that does not raise, the matrix built by the four passes is the banded matrix
  of the specification, and the calculated-speed vector is \<^verbatim>\<open>trackOutlier\<close> of it.
\<close>

lemma detectOutlier_banded:
  assumes cols: "3 < ncols track"
    and tot: "\<forall>a b c d. \<not> isl (geod_inv g a b c d)"
    and N: "4 \<le> length (filter (\<lambda>r. \<not> speed_max < r ! 3) (rows track))"
  shows "\<exists>oc. trackOutlier (spec_banded_matrix g speed_max
                  (filter (\<lambda>r. \<not> speed_max < r ! 3) (rows track))) = Inr oc
            \<and> length oc = length (filter (\<lambda>r. \<not> speed_max < r ! 3) (rows track))
            \<and> detectOutlier g track speed_max
                 = Inr (map (\<lambda>r. speed_max < r ! 3) (rows track), Some oc)"
proof -
  define track1 where "track1 = filter (\<lambda>r. \<not> speed_max < r ! 3) (rows track)"
  have N1: "4 \<le> length track1" using N by (simp add: track1_def)
  have c: "col 3 track = Inr (map (\<lambda>r. r ! 3) (rows track))" using cols by (simp add: col_def)
  have ne: "spec_banded_matrix g speed_max track1 \<noteq> []"
    using N1 by (auto simp: spec_banded_matrix_def)
  obtain oc where oc: "trackOutlier (spec_banded_matrix g speed_max track1) = Inr oc"
      "length oc = length (spec_banded_matrix g speed_max track1)"
    using trackOutlier_total[OF ne banded_symmetric banded_binary] by blast
  have loc: "length oc = length track1" using oc(2) by (simp add: spec_banded_matrix_def)
  have "track1 \<noteq> []" using N1 by auto
  then have "\<exists>r\<in>set (rows track). \<not> speed_max < r ! 3"
    unfolding track1_def filter_empty_conv by blast
  then obtain r where "r \<in> set (rows track)" "\<not> speed_max < r ! 3" by blast
  then have nall: "\<not> list_all id (map (\<lambda>s. speed_max < s) (map (\<lambda>r. r ! 3) (rows track)))"
    by (auto simp: list_all_iff)
  have "detectOutlier g track speed_max
         = Inr (map (\<lambda>s. speed_max < s) (map (\<lambda>r. r ! 3) (rows track)), Some oc)"
    unfolding detectOutlier_def c bind_exn_simps Let_def report_filter track1_def[symmetric]
      diag_loop_banded[OF tot N1] oc(1)
    using nall by simp
  then show ?thesis using oc(1) loc by (simp add: track1_def comp_def)
qed

text \<open>
  Claim C7, on the code. With exactly three messages left the fourth pass slices
  \<^verbatim>\<open>track[:N-4]\<close> = \<^verbatim>\<open>track[:-1]\<close>, two rows, against \<^verbatim>\<open>track[4:]\<close>, no row; \<^verbatim>\<open>geod.inv\<close>
  refuses the unequal lengths and \<^verbatim>\<open>detectOutlier\<close> raises: no matrix is completed and
  no vector is returned.
\<close>

theorem detectOutlier_three_messages:
  "detectOutlier geod_meridian three_track 30 = Inl GeodError
   \<and> py_take (3 - 4) (rows three_track) = take 2 (rows three_track)
   \<and> drop 4 (rows three_track) = []"
  by code_simp

section \<open>Properties of the sampling loop\<close>

lemma interpolate_row_length:
  "interpolate' env g t v = Inr (Some row) \<Longrightarrow> length row = 9"
  by (auto simp: interpolate'_def bind_exn_def Let_def split: sum.splits if_splits prod.splits)

lemma py_range_empty: "0 < step \<Longrightarrow> b \<le> a \<Longrightarrow> py_range a b step = []"
proof -
  assume s: "0 < step" and ba: "b \<le> a"
  have "b - a + step - 1 \<le> step - 1" using ba by simp
  then have "(b - a + step - 1) div step \<le> (step - 1) div step" using s by (rule zdiv_mono1)
  moreover have "(step - 1) div step = 0" using s by (simp add: div_pos_pos_trivial)
  ultimately show ?thesis by (simp add: py_range_def)
qed

lemma py_range_Cons: "0 < step \<Longrightarrow> a < b \<Longrightarrow> \<exists>ts. py_range a b step = a # ts"
proof -
  assume s: "0 < step" and ab: "a < b"
  have "step \<le> b - a + step - 1" using ab by simp
  then have "step div step \<le> (b - a + step - 1) div step" using s by (rule zdiv_mono1)
  then have "1 \<le> (b - a + step - 1) div step" using s by simp
  then obtain n where n: "nat ((b - a + step - 1) div step) = Suc n"
    by (cases "nat ((b - a + step - 1) div step)") auto
  show ?thesis by (simp add: py_range_def n upt_conv_Cons del: upt_Suc)
qed

lemma sample_voyage_outcome:
  assumes "0 < nrows v" and "MMSI < ncols v"
  shows "sample_voyage env g v =
     (if py_int (last (rows v) ! TIMESTAMP) \<le> py_int (rows v ! 0 ! TIMESTAMP)
      then Inr (Some \<lparr>ncols = 8, rows = []\<rparr>)
      else case interpolate' env g (of_int (py_int (rows v ! 0 ! TIMESTAMP))) v of
             Inl e \<Rightarrow> Inl e
           | Inr None \<Rightarrow> Inr None
           | Inr (Some row) \<Rightarrow> Inl ValueError)"
proof -
  have tc: "TIMESTAMP < ncols v" using assms(2) by (simp add: MMSI_def TIMESTAMP_def)
  define t0 where "t0 = py_int (rows v ! 0 ! TIMESTAMP)"
  define t1 where "t1 = py_int (last (rows v) ! TIMESTAMP)"
  have sv: "sample_voyage env g v =
        sampling_walk env g v (py_range t0 t1 resolution) \<lparr>ncols = 8, rows = []\<rparr>"
    using assms(1) tc by (simp add: sample_voyage_def cell_0 cell_last t0_def t1_def)
  have rs: "0 < resolution" by (simp add: resolution_def)
  show ?thesis
  proof (cases "t1 \<le> t0")
    case True
    then show ?thesis
      using py_range_empty[OF rs True] by (simp add: sv t0_def[symmetric] t1_def[symmetric])
  next
    case False
    then obtain ts where ts: "py_range t0 t1 resolution = t0 # ts"
      using py_range_Cons[OF rs, of t0 t1] by auto
    show ?thesis
    proof (cases "interpolate' env g (of_int t0) v")
      case (Inl e)
      then show ?thesis using False by (simp add: sv ts t0_def[symmetric] t1_def[symmetric])
    next
      case (Inr r)
      show ?thesis
      proof (cases r)
        case None
        then show ?thesis using False Inr by (simp add: sv ts t0_def[symmetric] t1_def[symmetric])
      next
        case (Some row)
        then have "length row = 9" using Inr interpolate_row_length by blast
        then have "np_vstack \<lparr>ncols = 8, rows = []\<rparr> row = Inl ValueError"
          by (simp add: np_vstack_def)
        then show ?thesis
          using False Inr Some by (simp add: sv ts t0_def[symmetric] t1_def[symmetric])
      qed
    qed
  qed
qed

lemma sample_voyage_unbound:
  assumes "0 < nrows v" and "MMSI < ncols v"
  shows "sample_voyage names_unbound g v =
     (if py_int (last (rows v) ! TIMESTAMP) \<le> py_int (rows v ! 0 ! TIMESTAMP)
      then Inr (Some \<lparr>ncols = 8, rows = []\<rparr>) else Inr None)"
proof -
  have tc: "TIMESTAMP < ncols v" using assms(2) by (simp add: MMSI_def TIMESTAMP_def)
  show ?thesis
    using sample_voyage_outcome[OF assms, of names_unbound g]
    by (simp add: interpolate_unbound[OF tc])
qed





text \<open>
  On the module as it stands \<^verbatim>\<open>interpolate_\<close> is unavailable at every target, so a
  voyage with a non-empty walk is dropped at its first target and \<^verbatim>\<open>np.vstack\<close> is never
  reached. Were the three names bound, the first available row, which has nine entries,
  would meet the accumulator \<^verbatim>\<open>np.empty((0, 8))\<close> and \<^verbatim>\<open>np.vstack\<close> would raise ValueError
  (lemma \<open>sample_voyage_outcome\<close>); the loop over the voyages has no handler.
\<close>

lemma sampling_loop_raises:
  "sampling_loop names_sample geod_meridian [track2] = Inl ValueError
   \<and> sampling_loop names_unbound geod_meridian [track2] = Inr []"
  by code_simp

text \<open>
  The walk itself, started from any accumulator: a stored track carries the target
  timestamps in column 6, after the rows of the accumulator; and with an accumulator of
  nine columns one unavailable target anywhere in the walk gives \<^verbatim>\<open>None\<close>.
\<close>

lemma sampling_walk_timestamps:
  "sampling_walk env g v ts acc = Inr (Some res) \<Longrightarrow>
     ncols res = ncols acc
     \<and> map (\<lambda>r. r ! 6) (rows res) = map (\<lambda>r. r ! 6) (rows acc) @ map of_int ts"
proof (induction ts arbitrary: acc)
  case Nil
  then show ?case by simp
next
  case (Cons t ts)
  from Cons.prems obtain row acc' where
    i: "interpolate' env g (of_int t) v = Inr (Some row)" and
    st: "np_vstack acc row = Inr acc'" and
    w: "sampling_walk env g v ts acc' = Inr (Some res)"
    by (auto simp: bind_exn_def split: sum.splits option.splits)
  have acc': "acc' = acc\<lparr>rows := rows acc @ [row]\<rparr>"
    using st by (auto simp: np_vstack_def split: if_splits)
  have "row ! 6 = of_int t"
    using i by (auto simp: interpolate'_def bind_exn_def Let_def split: sum.splits if_splits prod.splits)
  then show ?case using Cons.IH[OF w] by (simp add: acc')
qed

lemma sampling_walk_unavailable:
  assumes "t \<in> set ts" and "interpolate' env g (of_int t) v = Inr None"
    and "MMSI < ncols v" and "ncols acc = 9"
  shows "sampling_walk env g v ts acc = Inr None"
  using assms
proof (induction ts arbitrary: acc)
  case Nil
  then show ?case by simp
next
  case (Cons u us)
  obtain r where r: "interpolate' env g (of_int u) v = Inr r"
    using interpolate_returns[OF Cons.prems(3)] by blast
  show ?case
  proof (cases r)
    case None
    then show ?thesis by (simp add: r)
  next
    case (Some row)
    then have "length row = 9" using r interpolate_row_length by blast
    then have st: "np_vstack acc row = Inr (acc\<lparr>rows := rows acc @ [row]\<rparr>)"
      using Cons.prems(4) by (simp add: np_vstack_def)
    have "t \<noteq> u" using Cons.prems(2) r Some by auto
    then have "t \<in> set us" using Cons.prems(1) by simp
    then have "sampling_walk env g v us (acc\<lparr>rows := rows acc @ [row]\<rparr>) = Inr None"
      using Cons.prems by (intro Cons.IH) simp_all
    then show ?thesis by (simp add: r Some st)
  qed
qed

section \<open>Properties of voyage segmentation\<close>

lemma py_slice_Suc_Suc: "py_slice (Suc a) (Suc b) (x # xs) = py_slice a b xs"
  by (simp add: py_slice_def)

lemma py_slice_0_Suc: "py_slice 0 (Suc b) (x # xs) = x # py_slice 0 b xs"
  by (simp add: py_slice_def)

lemma np_split_unfold:
  "np_split xs cs = py_slice 0 (hd (cs @ [length xs])) xs
      # map (\<lambda>(st, en). py_slice st en xs) (zip cs (tl (cs @ [length xs])))"
  by (cases cs) (simp_all add: np_split_def)

lemma np_split_Cons_Suc:
  "np_split (x # xs) (map Suc cs) = (case np_split xs cs of [] \<Rightarrow> [[x]] | p # ps \<Rightarrow> (x # p) # ps)"
proof -
  have hd: "hd (map Suc cs @ [Suc (length xs)]) = Suc (hd (cs @ [length xs]))"
    by (cases cs) simp_all
  have tl: "tl (map Suc cs @ [Suc (length xs)]) = map Suc (tl (cs @ [length xs]))"
    by (cases cs) simp_all
  have "map (\<lambda>(st, en). py_slice st en (x # xs)) (zip (map Suc cs) (map Suc (tl (cs @ [length xs]))))
      = map (\<lambda>(st, en). py_slice st en xs) (zip cs (tl (cs @ [length xs])))"
    by (simp add: zip_map_map py_slice_Suc_Suc split_def)
  then show ?thesis
    using np_split_unfold[of "x # xs" "map Suc cs"] np_split_unfold[of xs cs]
    by (simp add: hd tl py_slice_0_Suc)
qed

lemma np_split_Cons_cut:
  "np_split (x # xs) (Suc 0 # map Suc cs) = [x] # np_split xs cs"
proof -
  have "np_split (x # xs) (map Suc (0 # cs)) =
        (case np_split xs (0 # cs) of [] \<Rightarrow> [[x]] | p # ps \<Rightarrow> (x # p) # ps)"
    by (rule np_split_Cons_Suc)
  moreover have "np_split xs (0 # cs) = [] # np_split xs cs"
    by (simp add: np_split_def py_slice_def)
  ultimately show ?thesis by simp
qed

lemma gap_idx_Cons:
  "gap_idx P (x # y # r) = (if P x y then [0] else []) @ map Suc (gap_idx P (y # r))"
proof -
  have "[0..<Suc (length r)] = 0 # map Suc [0..<length r]"
    by (simp add: upt_conv_Cons map_Suc_upt del: upt_Suc)
  then show ?thesis by (simp add: gap_idx_def filter_map comp_def del: upt_Suc)
qed

lemma np_split_refines:
  "xs \<noteq> [] \<Longrightarrow> np_split xs (map Suc (gap_idx P xs)) = spec_split_at_gaps P xs"
proof (induction P xs rule: spec_split_at_gaps.induct)
  case (1 P)
  then show ?case by simp
next
  case (2 P x)
  show ?case by (simp add: gap_idx_def np_split_def py_slice_def)
next
  case (3 P x y r)
  have IH: "np_split (y # r) (map Suc (gap_idx P (y # r))) = spec_split_at_gaps P (y # r)"
  proof (cases "P x y")
    case True
    then show ?thesis using 3(1) by simp
  next
    case False
    then show ?thesis using 3(2) by simp
  qed
  show ?case
  proof (cases "P x y")
    case True
    then show ?thesis
      using np_split_Cons_cut[of x "y # r" "map Suc (gap_idx P (y # r))"] IH
      by (simp add: gap_idx_Cons)
  next
    case False
    then show ?thesis
      using np_split_Cons_Suc[of x "y # r" "map Suc (gap_idx P (y # r))"] IH
      by (simp add: gap_idx_Cons)
  qed
qed

lemma split_ne: "spec_split_at_gaps P xs \<noteq> []"
  by (induction P xs rule: spec_split_at_gaps.induct) (simp_all split: list.split)

lemma split_hd_hd:
  "xs \<noteq> [] \<Longrightarrow> hd (hd (spec_split_at_gaps P xs)) = hd xs \<and> hd (spec_split_at_gaps P xs) \<noteq> []"
proof (induction P xs rule: spec_split_at_gaps.induct)
  case (1 P) then show ?case by simp
next
  case (2 P x) then show ?case by simp
next
  case (3 P x y r)
  obtain q qs where q: "spec_split_at_gaps P (y # r) = q # qs"
    using split_ne[of P "y # r"] by (cases "spec_split_at_gaps P (y # r)") auto
  show ?case using q by (cases "P x y") auto
qed

lemma split_concat: "concat (spec_split_at_gaps P xs) = xs"
proof (induction P xs rule: spec_split_at_gaps.induct)
  case (1 P) then show ?case by simp
next
  case (2 P x) then show ?case by simp
next
  case (3 P x y r)
  obtain q qs where q: "spec_split_at_gaps P (y # r) = q # qs"
    using split_ne[of P "y # r"] by (cases "spec_split_at_gaps P (y # r)") auto
  show ?case using 3 q by (cases "P x y") auto
qed

lemma split_pieces_ne: "xs \<noteq> [] \<Longrightarrow> p \<in> set (spec_split_at_gaps P xs) \<Longrightarrow> p \<noteq> []"
proof (induction P xs arbitrary: p rule: spec_split_at_gaps.induct)
  case (1 P) then show ?case by simp
next
  case (2 P x) then show ?case by simp
next
  case (3 P x y r)
  obtain q qs where q: "spec_split_at_gaps P (y # r) = q # qs"
    using split_ne[of P "y # r"] by (cases "spec_split_at_gaps P (y # r)") auto
  show ?case
  proof (cases "P x y")
    case True
    then show ?thesis using 3(1)[OF True, of p] 3(4) by auto
  next
    case False
    then show ?thesis using 3(2)[OF False, of p] 3(4) q by auto
  qed
qed

lemma split_within:
  "p \<in> set (spec_split_at_gaps P xs) \<Longrightarrow> successively (\<lambda>a b. \<not> P a b) p"
proof (induction P xs arbitrary: p rule: spec_split_at_gaps.induct)
  case (1 P) then show ?case by simp
next
  case (2 P x) then show ?case by simp
next
  case (3 P x y r)
  show ?case
  proof (cases "P x y")
    case True
    then show ?thesis using 3(1)[OF True] 3(3) by auto
  next
    case False
    obtain q qs where q: "spec_split_at_gaps P (y # r) = q # qs"
      using split_ne[of P "y # r"] by (cases "spec_split_at_gaps P (y # r)") auto
    have hq: "hd q = y" "q \<noteq> []" using split_hd_hd[of "y # r" P] q by auto
    have sq: "successively (\<lambda>a b. \<not> P a b) q" using 3(2)[OF False, of q] q by simp
    have "successively (\<lambda>a b. \<not> P a b) (x # q)"
      using hq sq False by (cases q) auto
    then show ?thesis using 3(2)[OF False] 3(3) False q by auto
  qed
qed

lemma split_between:
  "successively (\<lambda>p q. P (last p) (hd q)) (spec_split_at_gaps P xs)"
proof (induction P xs rule: spec_split_at_gaps.induct)
  case (1 P) then show ?case by simp
next
  case (2 P x) then show ?case by simp
next
  case (3 P x y r)
  obtain q qs where q: "spec_split_at_gaps P (y # r) = q # qs"
    using split_ne[of P "y # r"] by (cases "spec_split_at_gaps P (y # r)") auto
  have hq: "hd q = y" "q \<noteq> []" using split_hd_hd[of "y # r" P] q by auto
  show ?case
  proof (cases "P x y")
    case True
    then show ?thesis using 3(1)[OF True] q hq by simp
  next
    case False
    have "successively (\<lambda>p q. P (last p) (hd q)) (q # qs)" using 3(2)[OF False] q by simp
    then have "successively (\<lambda>p q. P (last p) (hd q)) ((x # q) # qs)"
      using hq by (cases qs) auto
    then show ?thesis using False q by simp
  qed
qed

lemma split_length: "xs \<noteq> [] \<Longrightarrow> length (spec_split_at_gaps P xs) = Suc (length (gap_idx P xs))"
proof (induction P xs rule: spec_split_at_gaps.induct)
  case (1 P) then show ?case by simp
next
  case (2 P x) then show ?case by (simp add: gap_idx_def)
next
  case (3 P x y r)
  obtain q qs where q: "spec_split_at_gaps P (y # r) = q # qs"
    using split_ne[of P "y # r"] by (cases "spec_split_at_gaps P (y # r)") auto
  show ?case using 3 q by (auto simp: gap_idx_Cons)
qed


lemma split_voyages_idx:
  assumes "col TIMESTAMP v = Inr ts"
  shows "filter (\<lambda>i. INTERVAL_MAX < map2 (\<lambda>a b. a - b) (tl ts) (butlast ts) ! i)
           [0..<length (map2 (\<lambda>a b. a - b) (tl ts) (butlast ts))]
         = gap_idx too_long_gap (rows v)"
proof -
  have ts: "ts = map (\<lambda>r. r ! TIMESTAMP) (rows v)"
    using assms by (auto simp: col_def split: if_splits)
  have len: "length (map2 (\<lambda>a b. a - b) (tl ts) (butlast ts)) = length (rows v) - 1"
    by (simp add: ts)
  have nth: "\<And>i. i < length (rows v) - 1 \<Longrightarrow>
      map2 (\<lambda>a b. a - b) (tl ts) (butlast ts) ! i = rows v ! Suc i ! TIMESTAMP - rows v ! i ! TIMESTAMP"
    by (simp add: ts nth_tl nth_butlast)
  show ?thesis
    unfolding gap_idx_def len too_long_gap_def
    by (rule filter_cong) (simp_all add: nth)
qed

lemma split_voyages_unfold:
  assumes "0 < nrows v" and "TIMESTAMP < ncols v"
  shows "split_voyages v =
      (if gap_idx too_long_gap (rows v) = [] then Inr [v]
       else Inr (map (\<lambda>t. v\<lparr>rows := t\<rparr>)
                  (np_split (rows v) (map Suc (gap_idx too_long_gap (rows v))))))"
proof -
  obtain ts where ts: "col TIMESTAMP v = Inr ts" using assms(2) by (simp add: col_def)
  show ?thesis
    using assms(1)
    unfolding split_voyages_def ts bind_exn_simps Let_def split_voyages_idx[OF ts] by simp
qed

lemma split_voyages_refines:
  assumes "0 < nrows v" and "TIMESTAMP < ncols v"
  shows "split_voyages v = Inr (map (\<lambda>p. v\<lparr>rows := p\<rparr>) (spec_split_at_gaps too_long_gap (rows v)))"
proof -
  have ne: "rows v \<noteq> []" using assms(1) by (auto simp: nrows_def)
  have r: "np_split (rows v) (map Suc (gap_idx too_long_gap (rows v)))
           = spec_split_at_gaps too_long_gap (rows v)"
    using ne by (rule np_split_refines)
  note sv = split_voyages_unfold[OF assms]
  show ?thesis
  proof (cases "gap_idx too_long_gap (rows v) = []")
    case True
    then have "spec_split_at_gaps too_long_gap (rows v) = [rows v]"
      using r by (simp add: np_split_def py_slice_def)
    then show ?thesis using True by (simp add: sv)
  next
    case False
    then show ?thesis using r by (simp add: sv)
  qed
qed

lemma too_short_eval:
  assumes "0 < nrows u" and "TIMESTAMP < ncols u"
  shows "too_short u = Inr (nrows u < 75 \<or> last (rows u) ! TIMESTAMP - rows u ! 0 ! TIMESTAMP < 6 * 3600)"
  using assms by (simp add: too_short_def cell_0 cell_last)

lemma length_filter_eval:
  assumes "\<forall>u\<in>set vs. 0 < nrows u \<and> TIMESTAMP < ncols u"
  shows "length_filter vs =
     Inr (filter (\<lambda>u. \<not> (nrows u < 75
                 \<or> last (rows u) ! TIMESTAMP - rows u ! 0 ! TIMESTAMP < 6 * 3600)) vs)"
  using assms unfolding length_filter_def
  by (induction vs) (simp_all add: too_short_eval)

text \<open>
  Claim C8. For a vessel's stream with at least one message, the voyages stored by the
  segmentation loop are consecutive pieces of the stream: together they are the stream,
  none is empty, inside a piece no two neighbours are more than two hours apart, and the
  last message of a piece and the first of the next are strictly more than two hours
  apart. There is one piece more than there are such gaps; with a single gap, after
  message \<open>k\<close>, the pieces are the first \<open>k + 1\<close> messages and the rest. The second loop
  removes exactly the voyages with fewer than 75 messages or a duration under six hours.
\<close>

theorem segmentation_splits_at_gaps:
  assumes "0 < nrows v" and "TIMESTAMP < ncols v"
  shows "\<exists>ps. split_voyages v = Inr (map (\<lambda>p. v\<lparr>rows := p\<rparr>) ps)
      \<and> concat ps = rows v
      \<and> (\<forall>p\<in>set ps. p \<noteq> [] \<and> successively (\<lambda>x y. \<not> too_long_gap x y) p)
      \<and> successively (\<lambda>p q. too_long_gap (last p) (hd q)) ps
      \<and> length ps = Suc (length (gap_idx too_long_gap (rows v)))
      \<and> (\<forall>k. gap_idx too_long_gap (rows v) = [k]
            \<longrightarrow> ps = [take (Suc k) (rows v), drop (Suc k) (rows v)])
      \<and> (\<forall>vs. (\<forall>u\<in>set vs. 0 < nrows u \<and> TIMESTAMP < ncols u) \<longrightarrow>
            length_filter vs =
              Inr (filter (\<lambda>u. \<not> (nrows u < 75
                       \<or> last (rows u) ! TIMESTAMP - rows u ! 0 ! TIMESTAMP < 6 * 3600)) vs))"
proof -
  let ?ps = "spec_split_at_gaps too_long_gap (rows v)"
  have ne: "rows v \<noteq> []" using assms(1) by (auto simp: nrows_def)
  have 1: "split_voyages v = Inr (map (\<lambda>p. v\<lparr>rows := p\<rparr>) ?ps)"
    using assms by (rule split_voyages_refines)
  have 2: "concat ?ps = rows v" by (rule split_concat)
  have 3: "\<forall>p\<in>set ?ps. p \<noteq> [] \<and> successively (\<lambda>x y. \<not> too_long_gap x y) p"
    using split_pieces_ne[OF ne] split_within by blast
  have 4: "successively (\<lambda>p q. too_long_gap (last p) (hd q)) ?ps" by (rule split_between)
  have 5: "length ?ps = Suc (length (gap_idx too_long_gap (rows v)))"
    using ne by (rule split_length)
  have 6: "\<forall>k. gap_idx too_long_gap (rows v) = [k]
            \<longrightarrow> ?ps = [take (Suc k) (rows v), drop (Suc k) (rows v)]"
  proof (intro allI impI)
    fix k assume k: "gap_idx too_long_gap (rows v) = [k]"
    have "?ps = np_split (rows v) (map Suc (gap_idx too_long_gap (rows v)))"
      using np_split_refines[OF ne] by simp
    then show "?ps = [take (Suc k) (rows v), drop (Suc k) (rows v)]"
      by (simp add: k np_split_def py_slice_def)
  qed
  have 7: "\<forall>vs. (\<forall>u\<in>set vs. 0 < nrows u \<and> TIMESTAMP < ncols u) \<longrightarrow>
            length_filter vs =
              Inr (filter (\<lambda>u. \<not> (nrows u < 75
                       \<or> last (rows u) ! TIMESTAMP - rows u ! 0 ! TIMESTAMP < 6 * 3600)) vs)"
    using length_filter_eval by blast
  show ?thesis using 1 2 3 4 5 6 7 by blast
qed

theorem segmentation_splits_at_gaps_witness:
  "split_voyages gap_track =
     Inr [gap_track\<lparr>rows := take 2 (rows gap_track)\<rparr>, gap_track\<lparr>rows := drop 2 (rows gap_track)\<rparr>]
   \<and> length_filter [gap_track] = Inr []"
proof -
  have h: "0 < nrows gap_track" "TIMESTAMP < ncols gap_track"
    by (simp_all add: gap_track_def nrows_def TIMESTAMP_def)
  have g: "gap_idx too_long_gap (rows gap_track) = [1]"
    by (simp add: gap_idx_def too_long_gap_def gap_track_def TIMESTAMP_def INTERVAL_MAX_def)
  have f: "\<forall>u\<in>set [gap_track]. 0 < nrows u \<and> TIMESTAMP < ncols u" using h by simp
  have n: "nrows gap_track < 75" by (simp add: gap_track_def nrows_def)
  from segmentation_splits_at_gaps[OF h] obtain ps where
    ps: "split_voyages gap_track = Inr (map (\<lambda>p. gap_track\<lparr>rows := p\<rparr>) ps)"
      "\<forall>k. gap_idx too_long_gap (rows gap_track) = [k]
            \<longrightarrow> ps = [take (Suc k) (rows gap_track), drop (Suc k) (rows gap_track)]"
      "\<forall>vs. (\<forall>u\<in>set vs. 0 < nrows u \<and> TIMESTAMP < ncols u) \<longrightarrow>
            length_filter vs =
              Inr (filter (\<lambda>u. \<not> (nrows u < 75
                       \<or> last (rows u) ! TIMESTAMP - rows u ! 0 ! TIMESTAMP < 6 * 3600)) vs)"
    by blast
  have a: "ps = [take 2 (rows gap_track), drop 2 (rows gap_track)]"
    using ps(2) g by (simp add: numeral_2_eq_2)
  have b: "length_filter [gap_track] = Inr []" using ps(3) f n by simp
  show ?thesis using ps(1) a b by simp
qed

section \<open>The anomaly-removal loop\<close>

text \<open>
  The loop over the voyages does not raise, whatever \<^verbatim>\<open>detectOutlier\<close> does: a voyage
  whose \<^verbatim>\<open>try\<close> body raises is popped and counted, and the loop goes on.
\<close>

lemma take_cols_ok:
  "TIMESTAMP < ncols v \<Longrightarrow> \<exists>track. take_cols [TIMESTAMP, LAT, LON, SOG] v = Inr track"
  by (simp add: take_cols_def TIMESTAMP_def LAT_def LON_def SOG_def)

lemma anomaly_loop_fault:
  assumes "take_cols [TIMESTAMP, LAT, LON, SOG] v = Inr track"
    and "anomaly_try g v track = Inl e"
  shows "anomaly_loop g (v # voyages) error_count = anomaly_loop g voyages (error_count + 1)"
  using assms by simp

lemma anomaly_loop_catches:
  "\<forall>v\<in>set voyages. TIMESTAMP < ncols v \<Longrightarrow>
   \<exists>res c. anomaly_loop g voyages n = Inr (res, c) \<and> n \<le> c
         \<and> length res + (c - n) \<le> length voyages"
proof (induction voyages arbitrary: n)
  case Nil
  then show ?case by simp
next
  case (Cons v voyages)
  obtain track where t: "take_cols [TIMESTAMP, LAT, LON, SOG] v = Inr track"
    using take_cols_ok Cons.prems by auto
  have r: "\<forall>v\<in>set voyages. TIMESTAMP < ncols v" using Cons.prems by simp
  show ?case
  proof (cases "anomaly_try g v track")
    case (Inl e)
    obtain res c where "anomaly_loop g voyages (n + 1) = Inr (res, c)" "n + 1 \<le> c"
      "length res + (c - (n + 1)) \<le> length voyages"
      using Cons.IH[OF r, of "n + 1"] by blast
    then show ?thesis using t Inl by auto
  next
    case (Inr x)
    obtain res c where rc: "anomaly_loop g voyages n = Inr (res, c)" "n \<le> c"
      "length res + (c - n) \<le> length voyages"
      using Cons.IH[OF r, of n] by blast
    show ?thesis
    proof (cases x)
      case None
      then show ?thesis using t Inr rc by auto
    next
      case (Some v')
      then show ?thesis using t Inr rc by auto
    qed
  qed
qed

text \<open>The count is the number of voyages whose \<^verbatim>\<open>try\<close> body raised.\<close>

lemma anomaly_loop_count:
  "\<forall>v\<in>set voyages. TIMESTAMP < ncols v \<Longrightarrow>
   \<exists>res. anomaly_loop g voyages n = Inr (res, n + length (filter (try_raises g) voyages))
        \<and> length res \<le> length (filter (\<lambda>v. \<not> try_raises g v) voyages)"
proof (induction voyages arbitrary: n)
  case Nil
  then show ?case by simp
next
  case (Cons v voyages)
  obtain track where t: "take_cols [TIMESTAMP, LAT, LON, SOG] v = Inr track"
    using take_cols_ok Cons.prems by auto
  have r: "\<forall>v\<in>set voyages. TIMESTAMP < ncols v" using Cons.prems by simp
  show ?case
  proof (cases "anomaly_try g v track")
    case (Inl e)
    then have f: "try_raises g v" by (simp add: try_raises_def t)
    obtain res where "anomaly_loop g voyages (n + 1)
          = Inr (res, n + 1 + length (filter (try_raises g) voyages))"
      "length res \<le> length (filter (\<lambda>v. \<not> try_raises g v) voyages)"
      using Cons.IH[OF r, of "n + 1"] by blast
    then show ?thesis using t Inl f by simp
  next
    case (Inr x)
    then have f: "\<not> try_raises g v" by (simp add: try_raises_def t)
    obtain res where rc: "anomaly_loop g voyages n
          = Inr (res, n + length (filter (try_raises g) voyages))"
      "length res \<le> length (filter (\<lambda>v. \<not> try_raises g v) voyages)"
      using Cons.IH[OF r, of n] by blast
    show ?thesis
    proof (cases x)
      case None
      then show ?thesis using t Inr rc f by simp
    next
      case (Some v')
      then show ?thesis using t Inr rc f by simp
    qed
  qed
qed

text \<open>
  What the stages hand on: segmentation and the length filter do not raise and give
  non-empty voyages; a voyage that the anomaly loop keeps has at least one message left,
  since neither mask is all true.
\<close>

lemma split_voyages_wf:
  assumes "TIMESTAMP < ncols v"
  shows "\<exists>ps. split_voyages v = Inr ps \<and> (\<forall>p\<in>set ps. 0 < nrows p \<and> ncols p = ncols v)"
proof (cases "0 < nrows v")
  case False
  then show ?thesis by (simp add: split_voyages_def)
next
  case True
  then have ne: "rows v \<noteq> []" by (auto simp: nrows_def)
  have "split_voyages v = Inr (map (\<lambda>p. v\<lparr>rows := p\<rparr>) (spec_split_at_gaps too_long_gap (rows v)))"
    using True assms by (rule split_voyages_refines)
  moreover have "\<forall>p\<in>set (spec_split_at_gaps too_long_gap (rows v)). p \<noteq> []"
    using split_pieces_ne[OF ne] by blast
  ultimately show ?thesis by (auto simp: nrows_def)
qed

lemma segmentation_wf:
  "\<forall>v\<in>set traj_data. MMSI < ncols v \<Longrightarrow>
   \<exists>vs. segmentation traj_data = Inr vs \<and> (\<forall>u\<in>set vs. 0 < nrows u \<and> MMSI < ncols u)"
proof (induction traj_data)
  case Nil
  then show ?case by simp
next
  case (Cons v traj_data)
  have "TIMESTAMP < ncols v" using Cons.prems by (simp add: MMSI_def TIMESTAMP_def)
  then obtain ps where ps: "split_voyages v = Inr ps" "\<forall>p\<in>set ps. 0 < nrows p \<and> ncols p = ncols v"
    using split_voyages_wf by blast
  obtain vs where vs: "segmentation traj_data = Inr vs" "\<forall>u\<in>set vs. 0 < nrows u \<and> MMSI < ncols u"
    using Cons by auto
  show ?case using ps vs Cons.prems by auto
qed

lemma length_filter_wf:
  assumes "\<forall>u\<in>set vs. 0 < nrows u \<and> MMSI < ncols u"
  shows "\<exists>ws. length_filter vs = Inr ws \<and> (\<forall>u\<in>set ws. 0 < nrows u \<and> MMSI < ncols u)"
proof -
  have "\<forall>u\<in>set vs. 0 < nrows u \<and> TIMESTAMP < ncols u"
    using assms by (auto simp: MMSI_def TIMESTAMP_def)
  then show ?thesis using length_filter_eval[of vs] assms by auto
qed

lemma mask_rows_nonempty:
  assumes "mask_rows m a = Inr b" and "\<exists>x\<in>set m. x"
  shows "0 < nrows b \<and> ncols b = ncols a"
proof -
  have l: "length m = nrows a" and b: "b = a\<lparr>rows := map snd (filter fst (zip m (rows a)))\<rparr>"
    using assms(1) by (auto simp: mask_rows_def split: if_splits)
  obtain i where i: "i < length m" "m ! i" using assms(2) by (auto simp: in_set_conv_nth)
  then have "(m ! i, rows a ! i) \<in> set (zip m (rows a))"
    using l by (auto simp: set_zip nrows_def)
  then have "filter fst (zip m (rows a)) \<noteq> []"
    using i(2) unfolding filter_empty_conv by force
  then show ?thesis by (simp add: b nrows_def)
qed

lemma anomaly_try_wf:
  assumes "anomaly_try g v track = Inr (Some v')"
  shows "0 < nrows v' \<and> ncols v' = ncols v"
proof -
  obtain o_report o_calcul where d: "detectOutlier g track 30 = Inr (o_report, o_calcul)"
    using assms by (cases "detectOutlier g track 30") (auto simp: anomaly_try_def)
  have nr: "\<not> list_all id o_report"
    using assms by (auto simp: anomaly_try_def d)
  obtain oc where oc: "o_calcul = Some oc"
    using assms nr by (cases o_calcul) (auto simp: anomaly_try_def d opt_all_def)
  have nc: "\<not> list_all id oc"
    using assms nr by (auto simp: anomaly_try_def d oc opt_all_def split: if_splits)
  obtain v1 where v1: "mask_rows (map Not o_report) v = Inr v1"
    using assms nr nc by (cases "mask_rows (map Not o_report) v") (auto simp: anomaly_try_def d oc opt_all_def)
  have v2: "mask_rows (map Not oc) v1 = Inr v'"
    using assms nr nc v1
    by (cases "mask_rows (map Not oc) v1") (auto simp: anomaly_try_def d oc opt_all_def)
  have c1: "ncols v1 = ncols v" using v1 by (auto simp: mask_rows_def split: if_splits)
  have "\<exists>x\<in>set (map Not oc). x" using nc by (auto simp: list_all_iff)
  then show ?thesis using mask_rows_nonempty[OF v2] c1 by simp
qed

lemma anomaly_loop_wf:
  "\<forall>v\<in>set voyages. MMSI < ncols v \<Longrightarrow>
   \<exists>res c. anomaly_loop g voyages n = Inr (res, c)
         \<and> (\<forall>u\<in>set res. 0 < nrows u \<and> MMSI < ncols u)"
proof (induction voyages arbitrary: n)
  case Nil
  then show ?case by simp
next
  case (Cons v voyages)
  have "TIMESTAMP < ncols v" using Cons.prems by (simp add: MMSI_def TIMESTAMP_def)
  then obtain track where t: "take_cols [TIMESTAMP, LAT, LON, SOG] v = Inr track"
    using take_cols_ok by blast
  have r: "\<forall>v\<in>set voyages. MMSI < ncols v" using Cons.prems by simp
  show ?case
  proof (cases "anomaly_try g v track")
    case (Inl e)
    then show ?thesis using Cons.IH[OF r, of "n + 1"] t by simp
  next
    case (Inr x)
    obtain res c where rc: "anomaly_loop g voyages n = Inr (res, c)"
      "\<forall>u\<in>set res. 0 < nrows u \<and> MMSI < ncols u"
      using Cons.IH[OF r, of n] by blast
    show ?thesis
    proof (cases x)
      case None
      then show ?thesis using t Inr rc by simp
    next
      case (Some v')
      then have "0 < nrows v' \<and> ncols v' = ncols v" using Inr anomaly_try_wf by blast
      then show ?thesis using t Inr Some rc Cons.prems by simp
    qed
  qed
qed

text \<open>
  With the three names unbound every voyage is dropped by the sampling loop or stored as
  an empty track, and an empty track gives no block.
\<close>

lemma sampling_loop_unbound:
  "\<forall>v\<in>set voyages. 0 < nrows v \<and> MMSI < ncols v \<Longrightarrow>
   \<exists>Vs. sampling_loop names_unbound g voyages = Inr Vs \<and> (\<forall>s\<in>set Vs. rows s = [])"
proof (induction voyages)
  case Nil
  then show ?case by simp
next
  case (Cons v voyages)
  obtain Vs where Vs: "sampling_loop names_unbound g voyages = Inr Vs" "\<forall>s\<in>set Vs. rows s = []"
    using Cons by auto
  have "0 < nrows v" "MMSI < ncols v" using Cons.prems by simp_all
  note sv = sample_voyage_unbound[OF this, of g]
  show ?case using Vs by (simp add: sv)
qed

lemma resplit_empty: "rows v = [] \<Longrightarrow> resplit v = []"
  by (simp add: resplit_def nrows_def np_arange0_def np_split_def py_slice_def
      one_hour_def DURATION_MAX_def)

lemma resplit_loop_empty: "\<forall>s\<in>set Vs. rows s = [] \<Longrightarrow> resplit_loop Vs = []"
  by (simp add: resplit_loop_def resplit_empty)

section \<open>The script on sample voyages\<close>

lemma track75_basic:
  "nrows track75 = 75" "ncols track75 = 9" "rows track75 \<noteq> []"
  "\<And>k. k < 75 \<Longrightarrow> rows track75 ! k = message75 k"
  "last (rows track75) = message75 74"
  by (simp_all add: track75_def nrows_def last_map)

lemma track75_gaps: "gap_idx too_long_gap (rows track75) = []"
  unfolding gap_idx_def filter_empty_conv
  by (auto simp: track75_def too_long_gap_def message75_def TIMESTAMP_def INTERVAL_MAX_def)

lemma track75_split: "split_voyages track75 = Inr [track75]"
  using split_voyages_unfold[of track75] track75_gaps
  by (simp add: track75_basic TIMESTAMP_def)

lemma track75_segmentation: "segmentation [track75] = Inr [track75]"
  by (simp add: track75_split)

lemma track75_length_filter: "length_filter [track75] = Inr [track75]"
  using length_filter_eval[of "[track75]"]
  by (simp add: track75_basic TIMESTAMP_def message75_def)

lemma trackOutlier_zeros:
  "0 < n \<Longrightarrow> trackOutlier (replicate n (replicate n 0)) = Inr (replicate n False)"
proof -
  assume n: "0 < n"
  have s: "is_symmetric (replicate n (replicate n 0))"
    by (simp add: is_symmetric_def list_all_iff)
  have b: "is_binary (replicate n (replicate n 0))"
    by (simp add: is_binary_def list_all_iff)
  have m: "np_max (replicate n (0::int)) = Inr 0"
  proof -
    obtain k where k: "n = Suc k" using n by (cases n) auto
    have "fold max (replicate k (0::int)) 0 = 0" by (induction k) simp_all
    then show ?thesis by (simp add: k np_max_def)
  qed
  have "koyak_loop (replicate n (replicate n 0)) n (replicate n 0) (replicate n False)
          = Inr (replicate n False)"
    by (subst koyak_loop.simps) (simp add: m)
  moreover have "sum_list (replicate n (0::int)) = 0" by (induction n) simp_all
  ultimately show ?thesis using s b by (simp add: trackOutlier_def Let_def map_replicate_const)
qed

lemma mask_rows_all: "length m = nrows a \<Longrightarrow> \<forall>x\<in>set m. x \<Longrightarrow> mask_rows m a = Inr a"
proof -
  assume l: "length m = nrows a" and t: "\<forall>x\<in>set m. x"
  have "filter fst (zip m (rows a)) = zip m (rows a)"
    using t by (auto simp: filter_id_conv dest: set_zip_leftD)
  then have "map snd (filter fst (zip m (rows a))) = rows a"
    using l by (simp add: nrows_def)
  then show ?thesis using l by (simp add: mask_rows_def)
qed


lemma track75_cols:
  "take_cols [TIMESTAMP, LAT, LON, SOG] track75 = Inr \<lparr>ncols = 4, rows = map columns75 [0..<75]\<rparr>"
  by (simp add: take_cols_def track75_def TIMESTAMP_def LAT_def LON_def SOG_def message75_def
      columns75_def comp_def)

lemma track75_no_anomaly: "\<not> speed_anomalous geod_meridian 30 (columns75 r) (columns75 c)"
proof (cases "r < c")
  case False
  then have "real c \<le> real r" by simp
  then show ?thesis by (simp add: speed_anomalous_def geod_meridian_def columns75_def)
next
  case True
  then have x: "0 < 300 * real c - 300 * real r" by simp
  have "(10 + real c - (10 + real r)) / (300 * real c - 300 * real r) < 30 * 0.514444"
    using x by (simp add: pos_divide_less_eq)
  then show ?thesis
    unfolding speed_anomalous_def geod_meridian_def columns75_def by simp
qed

lemma track75_banded:
  "spec_banded_matrix geod_meridian 30 (map columns75 [0..<75]) = replicate 75 (replicate 75 0)"
proof -
  have "spec_banded_matrix geod_meridian 30 (map columns75 [0..<75])
      = map (\<lambda>r. map (\<lambda>c. 0) [0..<75]) [0..<75]"
    by (simp add: spec_banded_matrix_def track75_no_anomaly)
  then show ?thesis by (simp add: map_replicate_const)
qed

lemma track75_detect:
  "detectOutlier geod_meridian \<lparr>ncols = 4, rows = map columns75 [0..<75]\<rparr> 30
   = Inr (replicate 75 False, Some (replicate 75 False))"
proof -
  let ?t = "\<lparr>ncols = 4, rows = map columns75 [0..<75]\<rparr>"
  have f: "filter (\<lambda>r. \<not> 30 < r ! 3) (rows ?t) = rows ?t"
    by (simp add: filter_id_conv columns75_def)
  have tot: "\<forall>a b c d. \<not> isl (geod_inv geod_meridian a b c d)" by (simp add: geod_meridian_def)
  have c: "3 < ncols ?t" by simp
  have N: "4 \<le> length (filter (\<lambda>r. \<not> 30 < r ! 3) (rows ?t))" unfolding f by simp
  obtain oc where oc:
    "trackOutlier (spec_banded_matrix geod_meridian 30 (filter (\<lambda>r. \<not> 30 < r ! 3) (rows ?t))) = Inr oc"
    "detectOutlier geod_meridian ?t 30 = Inr (map (\<lambda>r. 30 < r ! 3) (rows ?t), Some oc)"
    using detectOutlier_banded[OF c tot N] by blast
  have "trackOutlier (replicate 75 (replicate 75 0)) = Inr oc"
    using oc(1) unfolding f by (simp add: track75_banded)
  then have "oc = replicate 75 False" using trackOutlier_zeros[of 75] by simp
  moreover have "map (\<lambda>r. 30 < r ! 3) (rows ?t) = replicate 75 False"
    by (simp add: comp_def columns75_def map_replicate_const)
  ultimately show ?thesis using oc(2) by simp
qed

lemma track75_anomaly: "anomaly_loop geod_meridian [track75] n = Inr ([track75], n)"
proof -
  have m: "mask_rows (replicate 75 True) track75 = Inr track75"
    by (rule mask_rows_all) (simp_all add: track75_basic)
  have "anomaly_try geod_meridian track75 \<lparr>ncols = 4, rows = map columns75 [0..<75]\<rparr>
        = Inr (Some track75)"
    unfolding anomaly_try_def track75_detect bind_exn_simps
    by (simp add: opt_all_def m list_all_iff)
  then show ?thesis by (simp add: track75_cols)
qed

lemma track75_interp:
  "interpolate' names_sample geod_meridian 0 track75 = Inr (Some [10, 20, 5, 90, 91, 2, 0, 1, 0])"
  by code_simp


lemma track75_times:
  "py_int (rows track75 ! 0 ! TIMESTAMP) = 0" "py_int (last (rows track75) ! TIMESTAMP) = 22200"
  by (simp_all add: track75_basic message75_def TIMESTAMP_def py_int_def)

lemma track75_wf: "0 < nrows track75" "MMSI < ncols track75"
  by (simp_all add: track75_basic MMSI_def)

lemma track75_sample:
  "sample_voyage names_sample geod_meridian track75 = Inl ValueError"
  using sample_voyage_outcome[OF track75_wf, of names_sample geod_meridian]
  unfolding track75_times by (simp add: track75_interp)

lemma track75_sample_unbound:
  "sample_voyage names_unbound geod_meridian track75 = Inr None"
proof -
  have "interpolate' names_unbound geod_meridian 0 track75 = Inr None"
    by (rule interpolate_None_if_try_fails[OF interp_try_name_fails])
       (simp_all add: names_unbound_def track75_basic TIMESTAMP_def)
  then show ?thesis
    using sample_voyage_outcome[OF track75_wf, of names_unbound geod_meridian]
    unfolding track75_times by simp
qed

lemma track75_sampling_loop:
  "sampling_loop names_sample geod_meridian [track75] = Inl ValueError"
  "sampling_loop names_unbound geod_meridian [track75] = Inr []"
  by (simp_all add: track75_sample track75_sample_unbound)

text \<open>
  Were the three names bound, \<open>track75\<close> would reach \<^verbatim>\<open>np.vstack\<close> and the ValueError
  would leave the script; on the module as it stands the voyage is dropped.
\<close>

lemma track75_pipeline:
  "pipeline names_sample geod_meridian [track75] = Inl ValueError
   \<and> pipeline names_unbound geod_meridian [track75] = Inr ([], 0)"
  unfolding pipeline_def track75_segmentation bind_exn_simps track75_length_filter
    track75_anomaly prod.case track75_sampling_loop
  by (simp add: resplit_loop_def)


section \<open>The whole script\<close>

text \<open>
  Claim C4. In the anomaly-removal loop a voyage whose \<^verbatim>\<open>try\<close> body raises, whatever the
  exception, is popped, \<^verbatim>\<open>error_count\<close> is incremented and the loop goes on with the
  remaining voyages; the loop itself does not raise, and its count is the number of
  voyages whose \<^verbatim>\<open>try\<close> body raised. For every \<^verbatim>\<open>traj_data\<close> whose arrays
  have the module's eight columns the script runs to its end without an exception:
  segmentation, the length filter and the anomaly loop hand non-empty voyages to the
  sampling loop, where each is dropped or stored as an empty track, and the loops after it
  find no block. The script ends with \<^verbatim>\<open>Data\<close> and the count of the anomaly loop;
  \<^verbatim>\<open>Data\<close> is empty, since \<^verbatim>\<open>interpolate_\<close> is unavailable at every target.
\<close>

theorem pipeline_no_exception:
  assumes "\<forall>v\<in>set traj_data. MMSI < ncols v"
  shows "(\<forall>v voyages n track e.
            take_cols [TIMESTAMP, LAT, LON, SOG] v = Inr track \<and> anomaly_try g v track = Inl e
            \<longrightarrow> anomaly_loop g (v # voyages) n = anomaly_loop g voyages (n + 1))
       \<and> (\<forall>voyages n. (\<forall>v\<in>set voyages. TIMESTAMP < ncols v)
            \<longrightarrow> (\<exists>res. anomaly_loop g voyages n
                         = Inr (res, n + length (filter (try_raises g) voyages))
                   \<and> length res \<le> length (filter (\<lambda>v. \<not> try_raises g v) voyages)))
       \<and> (\<exists>voyages0 voyages1 voyages error_count.
            segmentation traj_data = Inr voyages0
            \<and> length_filter voyages0 = Inr voyages1
            \<and> anomaly_loop g voyages1 0 = Inr (voyages, error_count)
            \<and> pipeline names_unbound g traj_data = Inr ([], error_count))"
proof -
  have 1: "\<forall>v voyages n track e.
            take_cols [TIMESTAMP, LAT, LON, SOG] v = Inr track \<and> anomaly_try g v track = Inl e
            \<longrightarrow> anomaly_loop g (v # voyages) n = anomaly_loop g voyages (n + 1)"
    by simp
  have 2: "\<forall>voyages n. (\<forall>v\<in>set voyages. TIMESTAMP < ncols v)
            \<longrightarrow> (\<exists>res. anomaly_loop g voyages n
                         = Inr (res, n + length (filter (try_raises g) voyages))
                   \<and> length res \<le> length (filter (\<lambda>v. \<not> try_raises g v) voyages))"
    using anomaly_loop_count by blast
  obtain v0 where v0: "segmentation traj_data = Inr v0" "\<forall>u\<in>set v0. 0 < nrows u \<and> MMSI < ncols u"
    using segmentation_wf[OF assms] by blast
  obtain v1 where v1: "length_filter v0 = Inr v1" "\<forall>u\<in>set v1. 0 < nrows u \<and> MMSI < ncols u"
    using length_filter_wf[OF v0(2)] by blast
  have "\<forall>v\<in>set v1. MMSI < ncols v" using v1(2) by simp
  then obtain res c where rc: "anomaly_loop g v1 0 = Inr (res, c)"
      "\<forall>u\<in>set res. 0 < nrows u \<and> MMSI < ncols u"
    using anomaly_loop_wf[of v1 g 0] by blast
  obtain Vs where Vs: "sampling_loop names_unbound g res = Inr Vs" "\<forall>s\<in>set Vs. rows s = []"
    using sampling_loop_unbound[OF rc(2)] by blast
  have "pipeline names_unbound g traj_data = Inr ([], c)"
    by (simp add: pipeline_def v0(1) v1(1) rc(1) Vs(1) resplit_loop_empty[OF Vs(2)])
  then show ?thesis using 1 2 v0(1) v1(1) rc(1) by blast
qed

text \<open>
  Two vessels: the voyage \<open>fault75\<close> makes \<^verbatim>\<open>detectOutlier\<close> raise (three messages are
  left after the reported-speed filter), \<open>track75\<close> is clean. The first is popped and
  counted, the loop goes on to the second, and the script ends with the count 1.
\<close>

lemma fault75_split: "split_voyages fault75 = Inr [fault75]"
  by code_simp

lemma fault75_long: "too_short fault75 = Inr False" "too_short track75 = Inr False"
  by code_simp+

lemma fault75_try:
  "bind_exn (take_cols [TIMESTAMP, LAT, LON, SOG] fault75) (anomaly_try geod_meridian fault75)
   = Inl GeodError"
  by code_simp

theorem pipeline_no_exception_witness:
  "MMSI < ncols fault75 \<and> MMSI < ncols track75
   \<and> anomaly_loop geod_meridian [fault75, track75] 0 = Inr ([track75], 1)
   \<and> pipeline names_unbound geod_meridian [fault75, track75] = Inr ([], 1)"
proof -
  have c: "MMSI < ncols fault75" "MMSI < ncols track75"
    by (simp_all add: fault75_def track75_basic MMSI_def)
  then have h: "\<forall>v\<in>set [fault75, track75]. MMSI < ncols v" by simp
  note th = pipeline_no_exception[OF h, of geod_meridian]
  have seg: "segmentation [fault75, track75] = Inr [fault75, track75]"
    by (simp add: fault75_split track75_split)
  have len: "length_filter [fault75, track75] = Inr [fault75, track75]"
    by (simp add: length_filter_def fault75_long)
  obtain track where t: "take_cols [TIMESTAMP, LAT, LON, SOG] fault75 = Inr track"
    using take_cols_ok[of fault75] c(1) by (auto simp: MMSI_def TIMESTAMP_def)
  have f: "anomaly_try geod_meridian fault75 track = Inl GeodError"
    using fault75_try by (simp add: t)
  have e: "anomaly_loop geod_meridian [fault75, track75] 0 = anomaly_loop geod_meridian [track75] (0 + 1)"
    using th t f by blast
  have a: "anomaly_loop geod_meridian [fault75, track75] 0 = Inr ([track75], 1)"
    unfolding e track75_anomaly by simp
  obtain voyages0 voyages1 voyages error_count where
    p: "segmentation [fault75, track75] = Inr voyages0"
       "length_filter voyages0 = Inr voyages1"
       "anomaly_loop geod_meridian voyages1 0 = Inr (voyages, error_count)"
       "pipeline names_unbound geod_meridian [fault75, track75] = Inr ([], error_count)"
    using th by blast
  have v0: "voyages0 = [fault75, track75]" using p(1) unfolding seg by simp
  have v1: "voyages1 = [fault75, track75]" using p(2) unfolding v0 len by simp
  have "error_count = 1" using p(3) unfolding v1 a by simp
  then show ?thesis using c a p(4) by blast
qed

end
